theory Spec2Isabelle
  imports Complex_Main
begin

section \<open>JavaScript primitives used by the utilities\<close>

text \<open>
  Exceptions are values.  The first four constructors are instances of the built-in
  \<open>Error\<close> class (the payload is the message); \<open>NonError\<close> stands for any thrown value
  that is not an \<open>Error\<close> object.
\<close>

datatype exn = Error string | SyntaxError string | RangeError string | TypeError string
  | NonError string

definition instanceof_Error :: "exn \<Rightarrow> bool" where
  "instanceof_Error e = (case e of NonError _ \<Rightarrow> False | _ \<Rightarrow> True)"

text \<open>
  A value of type \<open>number\<close> that was obtained by parsing a string.  Finite values are kept
  as exact rationals: the rounding of binary64, overflow to infinity and the sign of zero
  are not represented.  Quantities that the data model of the program defines as integers
  (basis points, decimals, percentages of a route, slots, lamports, milliseconds) are
  \<open>int\<close> or \<open>nat\<close>.
\<close>

datatype number = NaN | PosInfinity | NegInfinity | Num rat


fun number_less :: "number \<Rightarrow> number \<Rightarrow> bool" where
  "number_less NaN _ = False"
| "number_less _ NaN = False"
| "number_less PosInfinity _ = False"
| "number_less _ PosInfinity = True"
| "number_less _ NegInfinity = False"
| "number_less NegInfinity _ = True"
| "number_less (Num a) (Num b) = (a < b)"

fun number_le :: "number \<Rightarrow> number \<Rightarrow> bool" where
  "number_le NaN _ = False"
| "number_le _ NaN = False"
| "number_le x y = (x = y \<or> number_less x y)"

fun number_neg :: "number \<Rightarrow> number" where
  "number_neg NaN = NaN"
| "number_neg PosInfinity = NegInfinity"
| "number_neg NegInfinity = PosInfinity"
| "number_neg (Num a) = Num (- a)"

fun Math_abs :: "number \<Rightarrow> number" where
  "Math_abs NaN = NaN"
| "Math_abs PosInfinity = PosInfinity"
| "Math_abs NegInfinity = PosInfinity"
| "Math_abs (Num a) = Num \<bar>a\<bar>"

text \<open>Multiplication and subtraction with a finite left or right operand, as the code uses them.\<close>

fun number_times :: "number \<Rightarrow> rat \<Rightarrow> number" where
  "number_times NaN _ = NaN"
| "number_times PosInfinity c = (if c = 0 then NaN else if 0 < c then PosInfinity else NegInfinity)"
| "number_times NegInfinity c = (if c = 0 then NaN else if 0 < c then NegInfinity else PosInfinity)"
| "number_times (Num a) c = Num (a * c)"

fun number_minus :: "rat \<Rightarrow> number \<Rightarrow> number" where
  "number_minus _ NaN = NaN"
| "number_minus _ PosInfinity = NegInfinity"
| "number_minus _ NegInfinity = PosInfinity"
| "number_minus c (Num a) = Num (c - a)"

text \<open>\<open>Math.max\<close> of two arguments: \<open>NaN\<close> if either is \<open>NaN\<close>.\<close>

fun Math_max :: "number \<Rightarrow> number \<Rightarrow> number" where
  "Math_max NaN _ = NaN"
| "Math_max _ NaN = NaN"
| "Math_max x y = (if number_less x y then y else x)"

subsection \<open>Characters and digits\<close>

definition is_digit :: "char \<Rightarrow> bool" where
  "is_digit c = (48 \<le> (of_char c :: nat) \<and> (of_char c :: nat) \<le> 57)"

text \<open>The value of a character as a digit, for radices up to 16.\<close>

definition char_value :: "char \<Rightarrow> nat option" where
  "char_value c = (let n = (of_char c :: nat) in
     if 48 \<le> n \<and> n \<le> 57 then Some (n - 48)
     else if 97 \<le> n \<and> n \<le> 102 then Some (n - 87)
     else if 65 \<le> n \<and> n \<le> 70 then Some (n - 55)
     else None)"

definition is_digit_of :: "nat \<Rightarrow> char \<Rightarrow> bool" where
  "is_digit_of b c = (case char_value c of Some v \<Rightarrow> v < b | None \<Rightarrow> False)"

definition digits_value :: "nat \<Rightarrow> string \<Rightarrow> nat" where
  "digits_value b s = foldl (\<lambda>a c. b * a + (case char_value c of Some v \<Rightarrow> v | None \<Rightarrow> 0)) 0 s"

text \<open>White space of the ASCII range: TAB, LF, VT, FF, CR and SP.\<close>

definition is_space :: "char \<Rightarrow> bool" where
  "is_space c = ((of_char c :: nat) \<in> {9, 10, 11, 12, 13, 32})"

definition trimStart :: "string \<Rightarrow> string" where
  "trimStart s = dropWhile is_space s"

definition trim :: "string \<Rightarrow> string" where
  "trim s = rev (dropWhile is_space (rev (dropWhile is_space s)))"

subsection \<open>BigInt\<close>

definition unsigned_literal :: "nat \<Rightarrow> string \<Rightarrow> string \<Rightarrow> exn + int" where
  "unsigned_literal b src ds =
     (if ds \<noteq> [] \<and> list_all (is_digit_of b) ds then Inr (int (digits_value b ds))
      else Inl (SyntaxError (''Cannot convert '' @ src @ '' to a BigInt'')))"

text \<open>
  \<open>BigInt(s)\<close> for a string: surrounding white space is ignored, the empty string is
  \<open>0n\<close>, a decimal literal may carry a sign, and the prefixes \<open>0x\<close>, \<open>0o\<close>, \<open>0b\<close> select
  another radix.  Anything else is a \<open>SyntaxError\<close>.
\<close>

definition BigInt_of_string :: "string \<Rightarrow> exn + int" where
  "BigInt_of_string s = (let t = trim s in
     if t = [] then Inr 0
     else if take 2 t = ''0x'' \<or> take 2 t = ''0X'' then unsigned_literal 16 s (drop 2 t)
     else if take 2 t = ''0o'' \<or> take 2 t = ''0O'' then unsigned_literal 8 s (drop 2 t)
     else if take 2 t = ''0b'' \<or> take 2 t = ''0B'' then unsigned_literal 2 s (drop 2 t)
     else if hd t = CHR ''-'' then
       (case unsigned_literal 10 s (tl t) of Inl e \<Rightarrow> Inl e | Inr v \<Rightarrow> Inr (- v))
     else if hd t = CHR ''+'' then unsigned_literal 10 s (tl t)
     else unsigned_literal 10 s t)"

text \<open>\<open>BigInt(x)\<close> for a number: only integral values convert.\<close>

definition BigInt_of_number :: "number \<Rightarrow> exn + int" where
  "BigInt_of_number x = (case x of
       Num r \<Rightarrow> (if r = of_int \<lfloor>r\<rfloor> then Inr \<lfloor>r\<rfloor>
                 else Inl (RangeError ''The number cannot be converted to a BigInt because it is not an integer''))
     | _ \<Rightarrow> Inl (RangeError ''The number cannot be converted to a BigInt because it is not an integer''))"

fun nat_digits :: "nat \<Rightarrow> string" where
  "nat_digits n = (if n < 10 then [char_of (48 + n)]
                   else nat_digits (n div 10) @ [char_of (48 + n mod 10)])"

declare nat_digits.simps [simp del]

definition BigInt_toString :: "int \<Rightarrow> string" where
  "BigInt_toString i = (if i < 0 then CHR ''-'' # nat_digits (nat (- i)) else nat_digits (nat i))"

text \<open>BigInt division truncates towards zero; the remainder has the sign of the dividend.\<close>

definition bigint_div :: "int \<Rightarrow> int \<Rightarrow> exn + int" where
  "bigint_div a b = (if b = 0 then Inl (RangeError ''Division by zero'')
                     else Inr (sgn a * sgn b * (\<bar>a\<bar> div \<bar>b\<bar>)))"

definition bigint_rem :: "int \<Rightarrow> int \<Rightarrow> exn + int" where
  "bigint_rem a b = (if b = 0 then Inl (RangeError ''Division by zero'')
                     else Inr (sgn a * (\<bar>a\<bar> mod \<bar>b\<bar>)))"

subsection \<open>The number \<open>10 ** decimals\<close>\<close>

text \<open>
  The exponentiation operator works on binary64 numbers, and the language leaves the
  precision of its result to the implementation.  \<open>pow10 d\<close> is the correctly rounded
  result: the integer nearest to \<open>10 ^ d\<close> that has a significand of 53 bits (ties to
  even), or infinity beyond the range of the format.  It is \<open>10 ^ d\<close> itself as long as
  that is a binary64 number, which is up to \<open>d = 22\<close>.
\<close>

fun bit_length :: "nat \<Rightarrow> nat" where
  "bit_length n = (if n = 0 then 0 else Suc (bit_length (n div 2)))"

declare bit_length.simps [simp del]

definition round_binary64 :: "nat \<Rightarrow> nat" where
  "round_binary64 n = (if n < 2 ^ 53 then n else
     (let e = bit_length n - 53; q = n div 2 ^ e; r = n mod 2 ^ e in
        if 2 * r < 2 ^ e \<or> (2 * r = 2 ^ e \<and> even q) then q * 2 ^ e else (q + 1) * 2 ^ e))"

definition pow10 :: "nat \<Rightarrow> number" where
  "pow10 d = (let v = round_binary64 (10 ^ d) in
     if v < 2 ^ 1024 then Num (of_nat v) else PosInfinity)"

subsection \<open>Strings\<close>

definition padStart :: "string \<Rightarrow> nat \<Rightarrow> char \<Rightarrow> string" where
  "padStart s n c = replicate (n - length s) c @ s"

definition padEnd :: "string \<Rightarrow> nat \<Rightarrow> char \<Rightarrow> string" where
  "padEnd s n c = s @ replicate (n - length s) c"

text \<open>\<open>s.replace(/0+$/, '')\<close> and \<open>s.replace(/^0+/, '')\<close>.\<close>

definition strip_trailing_zeros :: "string \<Rightarrow> string" where
  "strip_trailing_zeros s = rev (dropWhile (\<lambda>c. c = CHR ''0'') (rev s))"

definition strip_leading_zeros :: "string \<Rightarrow> string" where
  "strip_leading_zeros s = dropWhile (\<lambda>c. c = CHR ''0'') s"

fun split_on :: "char \<Rightarrow> string \<Rightarrow> string list" where
  "split_on c [] = [[]]"
| "split_on c (x # xs) =
     (if x = c then [] # split_on c xs
      else (case split_on c xs of p # ps \<Rightarrow> (x # p) # ps | [] \<Rightarrow> [[x]]))"

subsection \<open>\<open>Number(s)\<close> and \<open>parseFloat(s)\<close>\<close>

text \<open>
  The exponent part at the head of a string, if there is one, and the rest of the string.
  An \<open>e\<close> that is not followed by digits is not part of the literal.
\<close>

definition exponent_part :: "string \<Rightarrow> int \<times> string" where
  "exponent_part s = (case s of
       [] \<Rightarrow> (0, s)
     | c # t \<Rightarrow>
         if c = CHR ''e'' \<or> c = CHR ''E'' then
           (let neg = (t \<noteq> [] \<and> hd t = CHR ''-'');
                u = (if t \<noteq> [] \<and> (hd t = CHR ''-'' \<or> hd t = CHR ''+'') then tl t else t);
                ds = takeWhile is_digit u
            in if ds = [] then (0, s)
               else (if neg then - int (digits_value 10 ds) else int (digits_value 10 ds),
                     dropWhile is_digit u))
         else (0, s))"

definition scale10 :: "rat \<Rightarrow> int \<Rightarrow> rat" where
  "scale10 m e = (if 0 \<le> e then m * 10 ^ nat e else m / 10 ^ nat (- e))"

text \<open>
  The longest prefix that is an unsigned decimal literal (\<open>Infinity\<close>, \<open>12\<close>, \<open>12.\<close>,
  \<open>12.5\<close>, \<open>.5\<close>, each with an optional exponent), its value and the rest of the string.
\<close>

definition unsigned_decimal :: "string \<Rightarrow> (number \<times> string) option" where
  "unsigned_decimal s =
     (if take 8 s = ''Infinity'' then Some (PosInfinity, drop 8 s)
      else (let ip = takeWhile is_digit s;
                r1 = dropWhile is_digit s;
                has_dot = (r1 \<noteq> [] \<and> hd r1 = CHR ''.'');
                fp = (if has_dot then takeWhile is_digit (tl r1) else []);
                r2 = (if has_dot then dropWhile is_digit (tl r1) else r1)
            in if ip = [] \<and> fp = [] then None
               else (let ex = exponent_part r2;
                         m = of_nat (digits_value 10 ip)
                             + of_nat (digits_value 10 fp) / 10 ^ length fp
                     in Some (Num (scale10 m (fst ex)), snd ex))))"

definition signed_decimal :: "string \<Rightarrow> (number \<times> string) option" where
  "signed_decimal s = (case s of
       [] \<Rightarrow> None
     | c # t \<Rightarrow>
         if c = CHR ''-'' then
           (case unsigned_decimal t of None \<Rightarrow> None | Some (v, r) \<Rightarrow> Some (number_neg v, r))
         else if c = CHR ''+'' then unsigned_decimal t
         else unsigned_decimal s)"

text \<open>\<open>parseFloat\<close> skips leading white space and ignores what follows the literal.\<close>

definition parseFloat :: "string \<Rightarrow> number" where
  "parseFloat s = (case signed_decimal (trimStart s) of None \<Rightarrow> NaN | Some (v, _) \<Rightarrow> v)"




text \<open>\<open>x || d\<close> for an optional integer: \<open>null\<close>, \<open>undefined\<close> and \<open>0\<close> are falsy.\<close>

definition or_else :: "int option \<Rightarrow> int \<Rightarrow> int" where
  "or_else x d = (case x of None \<Rightarrow> d | Some v \<Rightarrow> if v = 0 then d else v)"

section \<open>quoteUtils\<close>

subsection \<open>Data model\<close>

datatype SwapMode = ExactIn | ExactOut

record SwapInfo =
  ammKey :: string
  label :: "string option"
  step_inputMint :: string
  step_outputMint :: string
  step_inAmount :: string
  step_outAmount :: string
  feeAmount :: string
  feeMint :: string

record RoutePlanStep =
  swapInfo :: SwapInfo
  percent :: int

record PlatformFee =
  fee_amount :: string
  feeBps :: int

record JupiterQuote =
  inputMint :: string
  outputMint :: string
  inAmount :: string
  outAmount :: string
  otherAmountThreshold :: string
  swapMode :: SwapMode
  slippageBps :: int
  platformFee :: "PlatformFee option"
  priceImpactPct :: string
  routePlan :: "RoutePlanStep list"
  contextSlot :: "int option"
  timeTaken :: "rat option"




text \<open>
  \<open>formatAmount(amount, decimals)\<close>.  The parameter \<open>decimals\<close> is a non-negative integer.
  \<open>formatAmount_with\<close> is the body of the function with the number \<open>10 ** decimals\<close> as
  a parameter.
\<close>

definition formatAmount_with :: "number \<Rightarrow> string \<Rightarrow> nat \<Rightarrow> exn + string" where
  "formatAmount_with powerOfTen amount decimals =
     (case BigInt_of_string amount of Inl e \<Rightarrow> Inl e | Inr amountNum \<Rightarrow>
     (case BigInt_of_number powerOfTen of Inl e \<Rightarrow> Inl e | Inr divisor \<Rightarrow>
     (case bigint_div amountNum divisor of Inl e \<Rightarrow> Inl e | Inr whole \<Rightarrow>
     (case bigint_rem amountNum divisor of Inl e \<Rightarrow> Inl e | Inr fraction \<Rightarrow>
        if fraction = 0 then Inr (BigInt_toString whole)
        else (let fractionStr = padStart (BigInt_toString fraction) decimals (CHR ''0'');
                  trimmedFraction = strip_trailing_zeros fractionStr
              in Inr (BigInt_toString whole @ ''.'' @ trimmedFraction))))))"

definition formatAmount :: "string \<Rightarrow> nat \<Rightarrow> exn + string" where
  "formatAmount amount decimals = formatAmount_with (pow10 decimals) amount decimals"

text \<open>\<open>parseAmount(amount, decimals)\<close> for an amount that is already a string.\<close>

definition parseAmount :: "string \<Rightarrow> nat \<Rightarrow> string" where
  "parseAmount amountStr decimals =
     (let parts = split_on (CHR ''.'') amountStr;
          whole = (case parts of [] \<Rightarrow> [] | w # _ \<Rightarrow> w);
          fraction = (case parts of _ # f # _ \<Rightarrow> f | _ \<Rightarrow> []);
          paddedFraction = take decimals (padEnd fraction decimals (CHR ''0''));
          rawAmount = whole @ paddedFraction;
          stripped = strip_leading_zeros rawAmount
      in if stripped = [] then ''0'' else stripped)"

text \<open>
  \<open>calculateMinimumOutput(outAmount, slippageBps)\<close>.  Basis points are integers, so
  \<open>BigInt(10000 - slippageBps)\<close> is the difference itself.
\<close>

definition calculateMinimumOutput :: "string \<Rightarrow> int \<Rightarrow> exn + string" where
  "calculateMinimumOutput outAmount' slippageBps' =
     (case BigInt_of_string outAmount' of Inl e \<Rightarrow> Inl e | Inr amount \<Rightarrow>
        (let slippageFactor = 10000 - slippageBps' in
         (case bigint_div (amount * slippageFactor) 10000 of Inl e \<Rightarrow> Inl e
          | Inr minAmount \<Rightarrow> Inr (BigInt_toString minAmount))))"


definition compareQuotes :: "JupiterQuote \<Rightarrow> JupiterQuote \<Rightarrow> exn + int" where
  "compareQuotes quoteA quoteB =
     (if swapMode quoteA = ExactIn then
        (case BigInt_of_string (outAmount quoteA) of Inl e \<Rightarrow> Inl e | Inr outA \<Rightarrow>
        (case BigInt_of_string (outAmount quoteB) of Inl e \<Rightarrow> Inl e | Inr outB \<Rightarrow>
           if outA > outB then Inr 1
           else if outA < outB then Inr (- 1)
           else Inr 0))
      else
        (case BigInt_of_string (inAmount quoteA) of Inl e \<Rightarrow> Inl e | Inr inA \<Rightarrow>
        (case BigInt_of_string (inAmount quoteB) of Inl e \<Rightarrow> Inl e | Inr inB \<Rightarrow>
           if inA < inB then Inr 1
           else if inA > inB then Inr (- 1)
           else Inr 0)))"

section \<open>routeUtils\<close>

record RouteSummary =
  totalHops :: nat
  dexesUsed :: "string list"
  uniqueTokens :: "string list"
  totalFees :: "string \<rightharpoonup> int"
  splitRoutes :: nat
  isDirectRoute :: bool

text \<open>\<open>Set.add\<close> on a set kept in insertion order.\<close>

definition Set_add :: "'a list \<Rightarrow> 'a \<Rightarrow> 'a list" where
  "Set_add xs x = (if x \<in> set xs then xs else xs @ [x])"

text \<open>The variables that the loop of \<open>getRouteSummary\<close> updates.\<close>

record summary_vars =
  v_dexesUsed :: "string list"
  v_uniqueTokens :: "string list"
  v_totalFees :: "string \<rightharpoonup> int"
  v_percentages :: "int list"

fun summary_loop :: "RoutePlanStep list \<Rightarrow> summary_vars \<Rightarrow> exn + summary_vars" where
  "summary_loop [] v = Inr v"
| "summary_loop (step # rest) v =
     (let dexes = (case label (swapInfo step) of
                     None \<Rightarrow> v_dexesUsed v
                   | Some l \<Rightarrow> if l \<noteq> [] then Set_add (v_dexesUsed v) l else v_dexesUsed v);
          tokens = Set_add (Set_add (v_uniqueTokens v) (step_inputMint (swapInfo step)))
                     (step_outputMint (swapInfo step));
          currentFee = (case v_totalFees v (feeMint (swapInfo step)) of None \<Rightarrow> 0 | Some f \<Rightarrow> f)
      in (case BigInt_of_string (feeAmount (swapInfo step)) of
            Inl e \<Rightarrow> Inl e
          | Inr fee \<Rightarrow>
              summary_loop rest
                \<lparr>v_dexesUsed = dexes, v_uniqueTokens = tokens,
                 v_totalFees = (v_totalFees v)(feeMint (swapInfo step) \<mapsto> currentFee + fee),
                 v_percentages = Set_add (v_percentages v) (percent step)\<rparr>))"

definition getRouteSummary :: "JupiterQuote \<Rightarrow> exn + RouteSummary" where
  "getRouteSummary quote =
     (case summary_loop (routePlan quote)
             \<lparr>v_dexesUsed = [], v_uniqueTokens = [], v_totalFees = Map.empty, v_percentages = []\<rparr> of
        Inl e \<Rightarrow> Inl e
      | Inr v \<Rightarrow>
          (let splitCount =
                 (if length (routePlan quote) > 0
                  then length (filter (\<lambda>step. step_inputMint (swapInfo step) = inputMint quote)
                                 (routePlan quote))
                  else 0)
           in Inr \<lparr>totalHops = length (routePlan quote),
                   dexesUsed = v_dexesUsed v,
                   uniqueTokens = v_uniqueTokens v,
                   totalFees = v_totalFees v,
                   splitRoutes = splitCount,
                   isDirectRoute = (length (routePlan quote) = 1 \<or> splitCount = 1)\<rparr>))"





record RouteEfficiency =
  efficiency :: number
  hopsPercentage :: "string \<rightharpoonup> int"
  largestHop :: "string option"
  recommendation :: string

fun hops_loop ::
  "RoutePlanStep list \<Rightarrow> (string \<rightharpoonup> int) \<times> (string \<times> int) option
     \<Rightarrow> (string \<rightharpoonup> int) \<times> (string \<times> int) option" where
  "hops_loop [] st = st"
| "hops_loop (step # rest) (hops, largest) =
     (let label' = (case label (swapInfo step) of
                      None \<Rightarrow> ''Unknown''
                    | Some l \<Rightarrow> if l \<noteq> [] then l else ''Unknown'');
          hops' = hops(label' \<mapsto> or_else (hops label') 0 + percent step);
          largest' = (case largest of
                        None \<Rightarrow> Some (label', percent step)
                      | Some (l, p) \<Rightarrow>
                          if percent step > p then Some (label', percent step) else largest)
      in hops_loop rest (hops', largest'))"

definition analyzeRouteEfficiency :: "JupiterQuote \<Rightarrow> RouteEfficiency" where
  "analyzeRouteEfficiency quote =
     (let priceImpact = Math_abs (parseFloat (priceImpactPct quote));
          efficiency' = Math_max (Num 0) (number_minus 100 (number_times priceImpact 20));
          hl = hops_loop (routePlan quote) (Map.empty, None);
          recommendation' =
            (if number_le (Num 90) efficiency' then
               ''Excellent route with minimal price impact''
             else if number_le (Num 70) efficiency' then
               ''Good route, acceptable price impact''
             else if number_le (Num 50) efficiency' then
               ''Consider using a smaller trade size to reduce price impact''
             else
               ''High price impact detected. Consider splitting the trade or waiting for better liquidity'')
      in \<lparr>efficiency = efficiency',
          hopsPercentage = fst hl,
          largestHop = (case snd hl of None \<Rightarrow> None | Some (l, _) \<Rightarrow> Some l),
          recommendation = recommendation'\<rparr>)"

section \<open>transactionUtils\<close>

subsection \<open>The ledger connection\<close>

datatype ConfirmationStatus = Processed | Confirmed | Finalized

text \<open>
  The \<open>value\<close> of a signature status; \<open>status_err\<close> is the JSON text of the error
  (\<open>None\<close> when there is none).
\<close>

record SignatureStatus =
  status_slot :: int
  confirmations :: "int option"
  status_err :: "string option"
  confirmationStatus :: "ConfirmationStatus option"

record TransactionResponse =
  tx_slot :: int
  tx_blockTime :: "int option"

record BlockhashInfo =
  blockhash :: string
  lastValidBlockHeight :: int

text \<open>
  A versioned transaction carries its message; a legacy transaction carries the outcome
  of \<open>compileMessage()\<close>.
\<close>

datatype transaction = VersionedTransaction string | Transaction "exn + string"

datatype rpc_event =
    GetSignatureStatus string
  | GetTransaction string
  | GetLatestBlockhash
  | GetFeeForMessage string
  | SendTransaction
  | SetTimeout nat

text \<open>
  The connection is the environment.  Its answer to the \<open>k\<close>-th status request and to the
  \<open>k\<close>-th blockhash request is given by a function of \<open>k\<close> (counted from 0); an answer is
  an exception or a value.  \<open>latency n\<close> is the time in milliseconds that the \<open>n\<close>-th
  awaited operation takes: the duration of a request, or the lateness of a timer.
\<close>

record Connection =
  getSignatureStatus :: "nat \<Rightarrow> exn + SignatureStatus option"
  getTransaction :: "exn + TransactionResponse option"
  getLatestBlockhash :: "nat \<Rightarrow> exn + BlockhashInfo"
  getFeeForMessage :: "string \<Rightarrow> exn + int option"
  latency :: "nat \<Rightarrow> nat"

text \<open>The state that the asynchronous functions thread: the clock and the operations awaited so far.\<close>

record world =
  clock :: nat
  events :: "rpc_event list"

definition await :: "Connection \<Rightarrow> rpc_event \<Rightarrow> nat \<Rightarrow> world \<Rightarrow> world" where
  "await connection ev ms w =
     \<lparr>clock = clock w + ms + latency connection (length (events w)),
      events = events w @ [ev]\<rparr>"

definition is_status_request :: "rpc_event \<Rightarrow> bool" where
  "is_status_request ev = (case ev of GetSignatureStatus _ \<Rightarrow> True | _ \<Rightarrow> False)"

definition is_blockhash_request :: "rpc_event \<Rightarrow> bool" where
  "is_blockhash_request ev = (case ev of GetLatestBlockhash \<Rightarrow> True | _ \<Rightarrow> False)"

definition await_getSignatureStatus ::
  "Connection \<Rightarrow> string \<Rightarrow> world \<Rightarrow> (exn + SignatureStatus option) \<times> world" where
  "await_getSignatureStatus connection sig w =
     (getSignatureStatus connection (length (filter is_status_request (events w))),
      await connection (GetSignatureStatus sig) 0 w)"

definition await_getTransaction ::
  "Connection \<Rightarrow> string \<Rightarrow> world \<Rightarrow> (exn + TransactionResponse option) \<times> world" where
  "await_getTransaction connection sig w =
     (getTransaction connection, await connection (GetTransaction sig) 0 w)"

definition await_getLatestBlockhash ::
  "Connection \<Rightarrow> world \<Rightarrow> (exn + BlockhashInfo) \<times> world" where
  "await_getLatestBlockhash connection w =
     (getLatestBlockhash connection (length (filter is_blockhash_request (events w))),
      await connection GetLatestBlockhash 0 w)"

definition await_getFeeForMessage ::
  "Connection \<Rightarrow> string \<Rightarrow> world \<Rightarrow> (exn + int option) \<times> world" where
  "await_getFeeForMessage connection message w =
     (getFeeForMessage connection message, await connection (GetFeeForMessage message) 0 w)"

text \<open>\<open>await new Promise((resolve) => setTimeout(resolve, ms))\<close>\<close>

definition sleep :: "Connection \<Rightarrow> nat \<Rightarrow> world \<Rightarrow> world" where
  "sleep connection ms w = await connection (SetTimeout ms) ms w"

subsection \<open>Functions\<close>

text \<open>
  Optional fields are \<open>option\<close>s; \<open>err\<close> may be absent (\<open>None\<close>), \<open>null\<close>
  (\<open>Some None\<close>) or a string.
\<close>

record TransactionResult =
  signature :: string
  confirmed :: bool
  slot :: "int option"
  blockTime :: "int option"
  err :: "string option option"

record TransactionStatus =
  st_confirmed :: bool
  st_finalized :: bool
  st_slot :: "int option"
  st_err :: "string option option"

definition getTransactionStatus ::
  "Connection \<Rightarrow> string \<Rightarrow> world \<Rightarrow> (exn + TransactionStatus) \<times> world" where
  "getTransactionStatus connection sig w =
     (case await_getSignatureStatus connection sig w of
        (Inl e, w1) \<Rightarrow> (Inl e, w1)
      | (Inr None, w1) \<Rightarrow>
          (Inr \<lparr>st_confirmed = False, st_finalized = False, st_slot = None, st_err = None\<rparr>, w1)
      | (Inr (Some v), w1) \<Rightarrow>
          (Inr \<lparr>st_confirmed = (confirmationStatus v = Some Confirmed
                                  \<or> confirmationStatus v = Some Finalized),
                st_finalized = (confirmationStatus v = Some Finalized),
                st_slot = Some (status_slot v),
                st_err = Some (status_err v)\<rparr>, w1))"

definition estimateTransactionFee ::
  "Connection \<Rightarrow> transaction \<Rightarrow> world \<Rightarrow> (exn + int) \<times> world" where
  "estimateTransactionFee connection tx w =
     (case tx of
        VersionedTransaction message \<Rightarrow>
          (case await_getFeeForMessage connection message w of
             (Inl e, w1) \<Rightarrow> (Inl e, w1)
           | (Inr fee_value, w1) \<Rightarrow> (Inr (or_else fee_value 5000), w1))
      | Transaction compiled \<Rightarrow>
          (case compiled of
             Inl e \<Rightarrow> (Inl e, w)
           | Inr message \<Rightarrow>
               (case await_getFeeForMessage connection message w of
                  (Inl e, w1) \<Rightarrow> (Inl e, w1)
                | (Inr fee_value, w1) \<Rightarrow> (Inr (or_else fee_value 5000), w1))))"

function blockhash_loop ::
  "Connection \<Rightarrow> nat \<Rightarrow> nat \<Rightarrow> exn option \<Rightarrow> world \<Rightarrow> (exn + BlockhashInfo) \<times> world" where
  "blockhash_loop connection maxRetries i lastError w =
     (if i < maxRetries then
        (case await_getLatestBlockhash connection w of
           (Inr b, w1) \<Rightarrow>
             (Inr \<lparr>blockhash = blockhash b, lastValidBlockHeight = lastValidBlockHeight b\<rparr>, w1)
         | (Inl error, w1) \<Rightarrow>
             blockhash_loop connection maxRetries (i + 1)
               (Some (if instanceof_Error error then error else Error ''Unknown error''))
               (sleep connection (1000 * (i + 1)) w1))
      else
        (Inl (case lastError of Some e \<Rightarrow> e | None \<Rightarrow> Error ''Failed to get recent blockhash''),
         w))"
  by pat_completeness auto
termination
  by (relation "measure (\<lambda>(connection, maxRetries, i, lastError, w). maxRetries - i)") auto

declare blockhash_loop.simps [simp del]

text \<open>\<open>getRecentBlockhash(connection, maxRetries = 3)\<close>\<close>

definition getRecentBlockhash ::
  "Connection \<Rightarrow> nat option \<Rightarrow> world \<Rightarrow> (exn + BlockhashInfo) \<times> world" where
  "getRecentBlockhash connection maxRetries w =
     blockhash_loop connection (case maxRetries of None \<Rightarrow> 3 | Some n \<Rightarrow> n) 0 None w"

function wait_loop ::
  "Connection \<Rightarrow> string \<Rightarrow> nat \<Rightarrow> nat \<Rightarrow> world \<Rightarrow> (exn + TransactionResult) \<times> world" where
  "wait_loop connection sig timeoutMs startTime w =
     (if clock w - startTime < timeoutMs then
        (case getTransactionStatus connection sig w of
           (Inl e, w1) \<Rightarrow> (Inl e, w1)
         | (Inr status, w1) \<Rightarrow>
             if st_confirmed status then
               (case await_getTransaction connection sig w1 of
                  (Inl e, w2) \<Rightarrow> (Inl e, w2)
                | (Inr tx, w2) \<Rightarrow>
                    (Inr \<lparr>signature = sig,
                          confirmed = True,
                          slot = st_slot status,
                          blockTime = (case tx of
                                         None \<Rightarrow> None
                                       | Some t \<Rightarrow>
                                           (case tx_blockTime t of
                                              None \<Rightarrow> None
                                            | Some b \<Rightarrow> if b = 0 then None else Some b)),
                          err = st_err status\<rparr>, w2))
             else wait_loop connection sig timeoutMs startTime (sleep connection 1000 w1))
      else
        (Inr \<lparr>signature = sig, confirmed = False, slot = None, blockTime = None,
              err = Some (Some ''Transaction confirmation timeout'')\<rparr>, w))"
  by pat_completeness auto
termination
proof (relation "measure (\<lambda>(connection, sig, timeoutMs, startTime, w). startTime + timeoutMs - clock w)")
  show "wf (measure (\<lambda>(connection, sig, timeoutMs, startTime, w). startTime + timeoutMs - clock w))"
    by simp
next
  fix connection :: Connection and sig :: string and timeoutMs startTime :: nat
    and w w1 :: world and x :: "exn + TransactionStatus" and status :: TransactionStatus
  assume a: "clock w - startTime < timeoutMs"
    and b: "(x, w1) = getTransactionStatus connection sig w"
  have "w1 = await connection (GetSignatureStatus sig) 0 w"
    using b
    by (auto simp: getTransactionStatus_def await_getSignatureStatus_def
             split: sum.splits option.splits)
  then have "clock w \<le> clock w1" by (simp add: await_def)
  then have "clock w + 1000 \<le> clock (sleep connection 1000 w1)"
    by (simp add: sleep_def await_def)
  with a show "((connection, sig, timeoutMs, startTime, sleep connection 1000 w1),
                (connection, sig, timeoutMs, startTime, w))
               \<in> measure (\<lambda>(connection, sig, timeoutMs, startTime, w). startTime + timeoutMs - clock w)"
    by simp
qed

declare wait_loop.simps [simp del]

text \<open>
  \<open>waitForConfirmation(connection, signature, timeoutMs = 60000, commitment)\<close>; the body
  does not use \<open>commitment\<close>.
\<close>

definition waitForConfirmation ::
  "Connection \<Rightarrow> string \<Rightarrow> nat option \<Rightarrow> world \<Rightarrow> (exn + TransactionResult) \<times> world" where
  "waitForConfirmation connection sig timeoutMs w =
     (let startTime = clock w
      in wait_loop connection sig (case timeoutMs of None \<Rightarrow> 60000 | Some t \<Rightarrow> t) startTime w)"

section \<open>Notions used to state the properties\<close>

text \<open>A non-empty string of decimal digits, and the number it denotes.\<close>

definition is_decimal :: "string \<Rightarrow> bool" where
  "is_decimal s = (s \<noteq> [] \<and> list_all is_digit s)"

definition decimal_value :: "string \<Rightarrow> int" where
  "decimal_value s = int (digits_value 10 s)"

subsection \<open>The rules of a quote request\<close>








subsection \<open>Well-formed route plans\<close>

text \<open>Every fee amount of the route plan is text that \<open>BigInt\<close> accepts.\<close>

definition fee_amounts_parse :: "RoutePlanStep list \<Rightarrow> bool" where
  "fee_amounts_parse steps =
     list_all (\<lambda>step. case BigInt_of_string (feeAmount (swapInfo step)) of
                         Inl _ \<Rightarrow> False | Inr _ \<Rightarrow> True) steps"

subsection \<open>Sample data\<close>


definition sample_step :: "string \<Rightarrow> string \<Rightarrow> int \<Rightarrow> RoutePlanStep" where
  "sample_step i out pct =
     \<lparr>swapInfo = \<lparr>ammKey = ''amm'', label = Some ''Orca'', step_inputMint = i,
                  step_outputMint = out, step_inAmount = ''1000'', step_outAmount = ''990'',
                  feeAmount = ''3'', feeMint = i\<rparr>,
      percent = pct\<rparr>"

definition sample_quote ::
  "SwapMode \<Rightarrow> string \<Rightarrow> string \<Rightarrow> string \<Rightarrow> RoutePlanStep list \<Rightarrow> JupiterQuote" where
  "sample_quote mode inAmt outAmt impact plan =
     \<lparr>inputMint = ''SOL'', outputMint = ''USDC'', inAmount = inAmt, outAmount = outAmt,
      otherAmountThreshold = outAmt, swapMode = mode, slippageBps = 50, platformFee = None,
      priceImpactPct = impact, routePlan = plan, contextSlot = None, timeTaken = None\<rparr>"


definition sample_connection ::
  "(nat \<Rightarrow> exn + SignatureStatus option) \<Rightarrow> (exn + TransactionResponse option)
     \<Rightarrow> (nat \<Rightarrow> exn + BlockhashInfo) \<Rightarrow> (exn + int option) \<Rightarrow> Connection" where
  "sample_connection statuses tx hashes fee =
     \<lparr>getSignatureStatus = statuses, getTransaction = tx, getLatestBlockhash = hashes,
      getFeeForMessage = (\<lambda>_. fee), latency = (\<lambda>_. 0)\<rparr>"

text \<open>A connection whose blockhash request fails twice and then succeeds.\<close>

definition flaky_connection :: Connection where
  "flaky_connection =
     sample_connection (\<lambda>_. Inr None) (Inr None)
       (\<lambda>i. if i < 2 then Inl (Error ''fetch failed'')
            else Inr \<lparr>blockhash = ''9xQe'', lastValidBlockHeight = 1000\<rparr>)
       (Inr None)"

definition start :: "nat \<Rightarrow> world" where
  "start t = \<lparr>clock = t, events = []\<rparr>"

subsection \<open>Traces of the asynchronous functions\<close>

definition throws :: "exn + 'a \<Rightarrow> bool" where
  "throws r = (case r of Inl _ \<Rightarrow> True | Inr _ \<Rightarrow> False)"

text \<open>The error that the retry loop keeps for a thrown value.\<close>

definition as_Error :: "exn \<Rightarrow> exn" where
  "as_Error e = (if instanceof_Error e then e else Error ''Unknown error'')"

text \<open>
  The operations of the blockhash attempts \<open>i\<close> to \<open>k - 1\<close> when each of them fails: a
  request, then a timer of 1000 ms times the number of the attempt.
\<close>

definition backoff_events :: "nat \<Rightarrow> nat \<Rightarrow> rpc_event list" where
  "backoff_events i k = concat (map (\<lambda>j. [GetLatestBlockhash, SetTimeout (1000 * (j + 1))]) [i..<k])"

text \<open>
  A status reply that keeps the confirmation loop waiting: no exception, and no status
  \<open>confirmed\<close> or \<open>finalized\<close>.
\<close>

definition pending :: "exn + SignatureStatus option \<Rightarrow> bool" where
  "pending r = (case r of
       Inl _ \<Rightarrow> False
     | Inr None \<Rightarrow> True
     | Inr (Some v) \<Rightarrow> confirmationStatus v \<noteq> Some Confirmed
                       \<and> confirmationStatus v \<noteq> Some Finalized)"

text \<open>The operations of \<open>k\<close> polls that each find the transaction pending.\<close>

definition polling_events :: "string \<Rightarrow> nat \<Rightarrow> rpc_event list" where
  "polling_events sig k = concat (map (\<lambda>_. [GetSignatureStatus sig, SetTimeout 1000]) [0..<k])"

definition blockhash_requests :: "rpc_event list \<Rightarrow> nat" where
  "blockhash_requests evs = length (filter is_blockhash_request evs)"

definition status_requests :: "rpc_event list \<Rightarrow> nat" where
  "status_requests evs = length (filter is_status_request evs)"

text \<open>The time asked of the timers of a trace.\<close>

definition waited :: "rpc_event list \<Rightarrow> nat" where
  "waited evs = sum_list (map (\<lambda>ev. case ev of SetTimeout ms \<Rightarrow> ms | _ \<Rightarrow> 0) evs)"

text \<open>
  The clock of a world that started at time \<open>t\<close> with no operation: the start, the time
  asked of the timers and the latency of each operation.
\<close>

definition clock_of :: "Connection \<Rightarrow> nat \<Rightarrow> rpc_event list \<Rightarrow> nat" where
  "clock_of connection t evs = t + waited evs + sum_list (map (latency connection) [0..<length evs])"

text \<open>The time at which poll number \<open>k\<close> starts when the polls before it find the transaction pending.\<close>

definition poll_time :: "Connection \<Rightarrow> nat \<Rightarrow> string \<Rightarrow> nat \<Rightarrow> nat" where
  "poll_time connection t sig k = clock_of connection t (polling_events sig k)"

definition timeout_result :: "string \<Rightarrow> TransactionResult" where
  "timeout_result sig =
     \<lparr>signature = sig, confirmed = False, slot = None, blockTime = None,
      err = Some (Some ''Transaction confirmation timeout'')\<rparr>"


text \<open>
  A connection on which the second status request finds the transaction confirmed; each
  request takes 40 ms.
\<close>

definition confirming_connection :: Connection where
  "confirming_connection =
     \<lparr>getSignatureStatus =
        (\<lambda>k. if k = 0 then Inr None
             else Inr (Some \<lparr>status_slot = 250, confirmations = Some 1, status_err = None,
                              confirmationStatus = Some Confirmed\<rparr>)),
      getTransaction = Inr (Some \<lparr>tx_slot = 250, tx_blockTime = Some 1700000000\<rparr>),
      getLatestBlockhash = (\<lambda>_. Inl (Error ''fetch failed'')),
      getFeeForMessage = (\<lambda>_. Inr None),
      latency = (\<lambda>n. if n = 1 then 0 else 40)\<rparr>"


section \<open>Decimal strings\<close>

lemma digit_chars:
  "char_of (48::nat) = CHR ''0''" "char_of (49::nat) = CHR ''1''" "char_of (50::nat) = CHR ''2''"
  "char_of (51::nat) = CHR ''3''" "char_of (52::nat) = CHR ''4''" "char_of (53::nat) = CHR ''5''"
  "char_of (54::nat) = CHR ''6''" "char_of (55::nat) = CHR ''7''" "char_of (56::nat) = CHR ''8''"
  "char_of (57::nat) = CHR ''9''"
  by (simp_all add: char_of_eq_iff)

lemmas eval_digits = nat_digits.simps digit_chars BigInt_toString_def

lemma is_digit_char_value: "is_digit c \<Longrightarrow> char_value c = Some (of_char c - 48)"
  by (simp add: is_digit_def char_value_def Let_def)

lemma is_digit_of_10: "is_digit_of 10 c = is_digit c"
  by (auto simp: is_digit_of_def is_digit_def char_value_def Let_def split: option.splits if_splits)

lemma is_digit_not_space: "is_digit c \<Longrightarrow> \<not> is_space c"
  by (auto simp: is_digit_def is_space_def)

lemma is_digit_neq:
  assumes "is_digit c"
  shows "c \<noteq> CHR ''-''" "c \<noteq> CHR ''+''" "c \<noteq> CHR ''x''" "c \<noteq> CHR ''X''"
    "c \<noteq> CHR ''o''" "c \<noteq> CHR ''O''" "c \<noteq> CHR ''b''" "c \<noteq> CHR ''B''" "c \<noteq> CHR ''.''"
  using assms by (auto simp: is_digit_def)

lemma is_digit_char_of: "(d::nat) < 10 \<Longrightarrow> is_digit (char_of (48 + d))"
  by (simp add: is_digit_def)

lemma char_value_char_of: "(d::nat) < 10 \<Longrightarrow> char_value (char_of (48 + d)) = Some d"
  by (simp add: char_value_def Let_def)

lemma digits_value_snoc:
  "digits_value b (s @ [c]) = b * digits_value b s + (case char_value c of Some v \<Rightarrow> v | None \<Rightarrow> 0)"
  by (simp add: digits_value_def)

lemma nat_digits_all_digits: "list_all is_digit (nat_digits n)"
proof (induction n rule: nat_digits.induct)
  case (1 n)
  show ?case
  proof (cases "n < 10")
    case True
    then show ?thesis by (subst nat_digits.simps) (simp add: is_digit_char_of)
  next
    case False
    with 1 show ?thesis by (subst nat_digits.simps) (simp add: is_digit_char_of)
  qed
qed

lemma nat_digits_nonempty: "nat_digits n \<noteq> []"
  by (subst nat_digits.simps) simp

lemma digits_value_nat_digits: "digits_value 10 (nat_digits n) = n"
proof (induction n rule: nat_digits.induct)
  case (1 n)
  show ?case
  proof (cases "n < 10")
    case True
    then show ?thesis
      by (subst nat_digits.simps) (simp add: digits_value_def char_value_char_of)
  next
    case False
    with 1 have "digits_value 10 (nat_digits (n div 10)) = n div 10" by simp
    with False show ?thesis
      by (subst nat_digits.simps) (simp add: digits_value_snoc char_value_char_of)
  qed
qed

lemma trim_digits:
  assumes "list_all is_digit ds"
  shows "trim ds = ds"
proof (cases ds)
  case Nil
  then show ?thesis by (simp add: trim_def)
next
  case (Cons c cs)
  with assms have "\<not> is_space (hd ds)" by (simp add: is_digit_not_space)
  with Cons have a: "dropWhile is_space ds = ds" by simp
  from Cons have ne: "rev ds \<noteq> []" by simp
  from assms Cons have "is_digit (last ds)"
    by (metis last_in_set list.distinct(1) list_all_iff)
  then have "\<not> is_space (hd (rev ds))" using ne
    by (simp add: hd_rev is_digit_not_space)
  with ne have "dropWhile is_space (rev ds) = rev ds"
    by (cases "rev ds") auto
  with a show ?thesis by (simp add: trim_def)
qed

lemma take2_digits:
  assumes "list_all is_digit ds" "is_digit x \<Longrightarrow> False"
  shows "take 2 ds \<noteq> [c, x]"
proof
  assume eq: "take 2 ds = [c, x]"
  then obtain d e rest where "ds = d # e # rest"
    by (cases ds; cases "tl ds") auto
  with eq assms(1) have "is_digit x" by simp
  with assms(2) show False by simp
qed

lemma digits_no_radix_prefix:
  assumes "list_all is_digit ds"
  shows "take 2 ds \<noteq> [c, CHR ''x'']" "take 2 ds \<noteq> [c, CHR ''X'']"
    "take 2 ds \<noteq> [c, CHR ''o'']" "take 2 ds \<noteq> [c, CHR ''O'']"
    "take 2 ds \<noteq> [c, CHR ''b'']" "take 2 ds \<noteq> [c, CHR ''B'']"
  by (rule take2_digits[OF assms], simp add: is_digit_def)+

lemma BigInt_of_digits:
  assumes "ds \<noteq> []" "list_all is_digit ds"
  shows "BigInt_of_string ds = Inr (int (digits_value 10 ds))"
proof -
  have t: "trim ds = ds" using assms(2) by (rule trim_digits)
  note p = digits_no_radix_prefix[OF assms(2), of "CHR ''0''"]
  from assms have "is_digit (hd ds)" by (cases ds) auto
  then have h: "hd ds \<noteq> CHR ''-''" "hd ds \<noteq> CHR ''+''" by (rule is_digit_neq)+
  have u: "unsigned_literal 10 ds ds = Inr (int (digits_value 10 ds))"
    using assms by (simp add: unsigned_literal_def is_digit_of_10 list_all_iff)
  show ?thesis
    unfolding BigInt_of_string_def Let_def t
    by (simp only: assms(1) p h u if_False simp_thms)
qed

lemma BigInt_of_nat_digits: "BigInt_of_string (nat_digits n) = Inr (int n)"
  by (simp add: BigInt_of_digits nat_digits_nonempty nat_digits_all_digits digits_value_nat_digits)

lemma BigInt_toString_roundtrip: "BigInt_of_string (BigInt_toString i) = Inr i"
proof (cases "i < 0")
  case False
  then show ?thesis by (simp add: BigInt_toString_def BigInt_of_nat_digits)
next
  case True
  let ?ds = "nat_digits (nat (- i))"
  let ?s = "CHR ''-'' # ?ds"
  have sp: "\<not> is_space (CHR ''-'')" by (simp add: is_space_def)
  have d: "list_all is_digit ?ds" "?ds \<noteq> []"
    by (simp_all add: nat_digits_all_digits nat_digits_nonempty)
  then have "is_digit (last ?ds)" by (metis last_in_set list_all_iff)
  then have "\<not> is_space (last ?s)" using d(2) by (simp add: is_digit_not_space)
  then have "dropWhile is_space (rev ?s) = rev ?s"
    by (metis dropWhile_eq_self_iff hd_rev rev_is_Nil_conv list.distinct(1))
  then have t: "trim ?s = ?s" using sp by (simp add: trim_def)
  have "is_digit (hd ?ds)" using d by (cases ?ds) auto
  then have "take 2 ?s = [CHR ''-'', hd ?ds]" using d(2) by (cases ?ds) auto
  then have p: "take 2 ?s \<noteq> ''0x''" "take 2 ?s \<noteq> ''0X''" "take 2 ?s \<noteq> ''0o''"
    "take 2 ?s \<noteq> ''0O''" "take 2 ?s \<noteq> ''0b''" "take 2 ?s \<noteq> ''0B''"
    by simp_all
  have u: "unsigned_literal 10 ?s ?ds = Inr (int (nat (- i)))"
    using d by (simp add: unsigned_literal_def is_digit_of_10 list_all_iff digits_value_nat_digits)
  have "BigInt_of_string ?s = Inr i"
    unfolding BigInt_of_string_def Let_def t using p u True by simp
  with True show ?thesis by (simp add: BigInt_toString_def)
qed


lemma BigInt_of_decimal: "is_decimal s \<Longrightarrow> BigInt_of_string s = Inr (decimal_value s)"
  by (simp add: is_decimal_def decimal_value_def BigInt_of_digits)

section \<open>The minimum output after slippage\<close>

lemma bigint_div_nonneg: "0 \<le> a \<Longrightarrow> 0 < b \<Longrightarrow> bigint_div a b = Inr (a div b)"
  by (cases "a = 0") (simp_all add: bigint_div_def)

lemma bigint_rem_nonneg: "0 \<le> a \<Longrightarrow> 0 < b \<Longrightarrow> bigint_rem a b = Inr (a mod b)"
  by (cases "a = 0") (simp_all add: bigint_rem_def)

lemma scaled_floor_le:
  fixes n f :: int
  assumes "0 \<le> n" "0 \<le> f" "f \<le> 10000"
  shows "n * f div 10000 \<le> n"
proof -
  have "n * f \<le> n * 10000" using assms by (intro mult_left_mono) auto
  then show ?thesis by linarith
qed

lemma scaled_floor_less:
  fixes n f :: int
  assumes "0 < n" "0 \<le> f" "f < 10000"
  shows "n * f div 10000 < n"
proof -
  have "n * f < n * 10000" using assms by (intro mult_strict_left_mono) auto
  then show ?thesis by linarith
qed

text \<open>
  Claim C1, as the code has it.  For an output amount given as a non-empty string of
  decimal digits and an integer slippage between 0 and 10000 basis points,
  \<open>calculateMinimumOutput\<close> returns the decimal string of
  \<open>floor (amount * (10000 - slippage) / 10000)\<close>; that number is at most the output
  amount, and it equals the output amount exactly when the slippage is zero or the
  output amount is zero.
\<close>

theorem calculateMinimumOutput_floor:
  assumes "outAmount' \<noteq> []" and "list_all is_digit outAmount'"
    and "0 \<le> bps" and "bps \<le> 10000"
  shows "(let n = int (digits_value 10 outAmount'); m = n * (10000 - bps) div 10000 in
            BigInt_of_string outAmount' = Inr n
          \<and> calculateMinimumOutput outAmount' bps = Inr (BigInt_toString m)
          \<and> BigInt_of_string (BigInt_toString m) = Inr m
          \<and> m \<le> n
          \<and> ((m = n) = (bps = 0 \<or> n = 0)))"
proof -
  define n where "n = int (digits_value 10 outAmount')"
  define m where "m = n * (10000 - bps) div 10000"
  have n0: "0 \<le> n" by (simp add: n_def)
  have p: "BigInt_of_string outAmount' = Inr n"
    unfolding n_def using assms(1,2) by (rule BigInt_of_digits)
  have "0 \<le> n * (10000 - bps)" using n0 assms(4) by simp
  then have d: "bigint_div (n * (10000 - bps)) 10000 = Inr m"
    unfolding m_def by (simp add: bigint_div_nonneg)
  have c: "calculateMinimumOutput outAmount' bps = Inr (BigInt_toString m)"
    by (simp add: calculateMinimumOutput_def p d)
  have le: "m \<le> n"
    unfolding m_def using n0 assms(3,4) by (intro scaled_floor_le) auto
  have eq: "(m = n) = (bps = 0 \<or> n = 0)"
  proof (cases "bps = 0 \<or> n = 0")
    case True
    then show ?thesis by (auto simp: m_def)
  next
    case False
    then have "0 < n" "10000 - bps < 10000" using n0 assms(3) by auto
    then have "m < n" unfolding m_def using assms(4) by (intro scaled_floor_less) auto
    with False show ?thesis by simp
  qed
  show ?thesis
    unfolding Let_def n_def[symmetric] m_def[symmetric]
    using p c le eq by (simp add: BigInt_toString_roundtrip)
qed

lemma digits_value_1000000: "digits_value 10 ''1000000'' = 1000000"
  by (simp add: digits_value_def char_value_def)

lemma nat_digits_995000: "nat_digits 995000 = ''995000''"
  by (simp add: eval_digits)

theorem calculateMinimumOutput_floor_witness:
  "''1000000'' \<noteq> [] \<and> list_all is_digit ''1000000'' \<and> (0::int) \<le> 50 \<and> (50::int) \<le> 10000
   \<and> calculateMinimumOutput ''1000000'' 50 = Inr ''995000''"
proof -
  have h1: "''1000000'' \<noteq> []" by simp
  have h2: "list_all is_digit ''1000000''" by (simp add: is_digit_def)
  have h3: "(0::int) \<le> 50" and h4: "(50::int) \<le> 10000" by simp_all
  have "calculateMinimumOutput ''1000000'' 50 = Inr ''995000''"
    using calculateMinimumOutput_floor[OF h1 h2 h3 h4]
    by (simp add: Let_def digits_value_1000000 BigInt_toString_def nat_digits_995000)
  with h1 h2 show ?thesis by simp
qed

text \<open>
  The claim as written also says that the result equals the output amount only if the
  slippage is zero.  For an output amount of zero the result is zero whatever the slippage.
\<close>

lemma BigInt_of_string_0: "BigInt_of_string ''0'' = Inr 0"
  by (simp add: BigInt_of_digits is_digit_def digits_value_def char_value_def)

theorem calculateMinimumOutput_equality_counterexample:
  "calculateMinimumOutput ''0'' 5 = Inr ''0'' \<and> BigInt_of_string ''0'' = Inr 0 \<and> (5::int) \<noteq> 0"
  by (simp add: calculateMinimumOutput_def BigInt_of_string_0 bigint_div_def eval_digits)

section \<open>Comparing two quotes\<close>

text \<open>
  Claim C4, as the code has it.  For two quotes whose amounts are decimal strings,
  \<open>compareQuotes a b\<close> is 1, -1 or 0, decided by the swap mode of the first quote: for
  \<open>ExactIn\<close> it is the sign of the difference of the output amounts, so the quote with
  the higher output amount wins; for \<open>ExactOut\<close> the quote with the lower input amount
  wins; equal amounts give 0.  The amounts are compared as integers of any size.  When
  both quotes have the same swap mode, \<open>compareQuotes b a\<close> is the negation of
  \<open>compareQuotes a b\<close>.
\<close>

theorem compareQuotes_sign:
  assumes "is_decimal (inAmount a)" and "is_decimal (outAmount a)"
    and "is_decimal (inAmount b)" and "is_decimal (outAmount b)"
  shows "(let r = (case swapMode a of
                     ExactIn \<Rightarrow> sgn (decimal_value (outAmount a) - decimal_value (outAmount b))
                   | ExactOut \<Rightarrow> sgn (decimal_value (inAmount b) - decimal_value (inAmount a)))
          in compareQuotes a b = Inr r \<and> r \<in> {1, - 1, 0}
             \<and> (swapMode b = swapMode a \<longrightarrow> compareQuotes b a = Inr (- r)))"
  using assms
  by (cases "swapMode a") (auto simp: compareQuotes_def BigInt_of_decimal Let_def)

lemma decimal_samples:
  "is_decimal ''1000''" "decimal_value ''1000'' = 1000"
  "is_decimal ''1050000''" "decimal_value ''1050000'' = 1050000"
  "is_decimal ''1000000''" "decimal_value ''1000000'' = 1000000"
  "is_decimal ''9007199254740993''" "decimal_value ''9007199254740993'' = 9007199254740993"
  "is_decimal ''9007199254740992''" "decimal_value ''9007199254740992'' = 9007199254740992"
  by (simp_all add: is_decimal_def decimal_value_def is_digit_def digits_value_def char_value_def)

theorem compareQuotes_sign_witness:
  "is_decimal ''1000'' \<and> is_decimal ''1050000'' \<and> is_decimal ''1000000''
   \<and> compareQuotes (sample_quote ExactIn ''1000'' ''1050000'' ''0.1'' [])
                    (sample_quote ExactIn ''1000'' ''1000000'' ''0.1'' []) = Inr 1
   \<and> compareQuotes (sample_quote ExactIn ''1000'' ''1000000'' ''0.1'' [])
                    (sample_quote ExactIn ''1000'' ''1050000'' ''0.1'' []) = Inr (- 1)"
  using compareQuotes_sign[of "sample_quote ExactIn ''1000'' ''1050000'' ''0.1'' []"
                              "sample_quote ExactIn ''1000'' ''1000000'' ''0.1'' []"]
  by (simp add: sample_quote_def decimal_samples Let_def)

text \<open>
  Amounts beyond \<open>2 ^ 53\<close> are told apart: the comparison is on integers of any size.
\<close>

lemma compareQuotes_large_amounts:
  "compareQuotes (sample_quote ExactIn ''1000'' ''9007199254740993'' ''0.1'' [])
                 (sample_quote ExactIn ''1000'' ''9007199254740992'' ''0.1'' []) = Inr 1"
  by (simp add: compareQuotes_def sample_quote_def BigInt_of_decimal decimal_samples)

text \<open>
  The function reads the swap mode of its first argument only.  For two quotes of
  different modes the two orders of comparison are decided by different amounts, and
  the results are not opposite.
\<close>

theorem compareQuotes_mixed_modes:
  "compareQuotes (sample_quote ExactIn ''1000'' ''1050000'' ''0.1'' [])
                 (sample_quote ExactOut ''1000'' ''1000000'' ''0.1'' []) = Inr 1
   \<and> compareQuotes (sample_quote ExactOut ''1000'' ''1000000'' ''0.1'' [])
                    (sample_quote ExactIn ''1000'' ''1050000'' ''0.1'' []) = Inr 0"
  by (simp add: compareQuotes_def sample_quote_def BigInt_of_decimal decimal_samples)

section \<open>Route summary\<close>

lemma summary_loop_returns:
  "fee_amounts_parse steps \<Longrightarrow> \<exists>v'. summary_loop steps v = Inr v'"
proof (induction steps arbitrary: v)
  case Nil
  then show ?case by simp
next
  case (Cons step rest)
  from Cons.prems obtain fee where f: "BigInt_of_string (feeAmount (swapInfo step)) = Inr fee"
    by (auto simp: fee_amounts_parse_def split: sum.splits)
  from Cons.prems have "fee_amounts_parse rest" by (simp add: fee_amounts_parse_def)
  from Cons.IH[OF this] show ?case by (simp add: Let_def f)
qed

lemma getRouteSummary_returns:
  assumes "fee_amounts_parse (routePlan quote)"
  shows "\<exists>s. getRouteSummary quote = Inr s
           \<and> totalHops s = length (routePlan quote)
           \<and> splitRoutes s = length (filter (\<lambda>step. step_inputMint (swapInfo step) = inputMint quote)
                                       (routePlan quote))
           \<and> isDirectRoute s = (length (routePlan quote) = 1 \<or> splitRoutes s = 1)"
proof -
  from summary_loop_returns[OF assms] obtain v where
    "summary_loop (routePlan quote)
       \<lparr>v_dexesUsed = [], v_uniqueTokens = [], v_totalFees = Map.empty, v_percentages = []\<rparr> = Inr v"
    by blast
  then show ?thesis by (simp add: getRouteSummary_def Let_def)
qed

text \<open>
  Claim C7.  For a quote whose fee amounts are text that \<open>BigInt\<close> accepts,
  \<open>getRouteSummary\<close> returns a summary; its \<open>splitRoutes\<close> is the number of steps of
  the route plan whose input mint is the input mint of the quote, and \<open>isDirectRoute\<close>
  holds exactly when the route plan has one step or \<open>splitRoutes\<close> is 1.  The witness is
  the quote whose route plan has two steps that both start from the input mint, with 60
  and 40 percent: \<open>splitRoutes\<close> is 2 and the route is not direct.
\<close>

theorem getRouteSummary_splitRoutes:
  assumes "fee_amounts_parse (routePlan quote)"
  shows "\<exists>s. getRouteSummary quote = Inr s
           \<and> splitRoutes s = length (filter (\<lambda>step. step_inputMint (swapInfo step) = inputMint quote)
                                       (routePlan quote))
           \<and> isDirectRoute s = (length (routePlan quote) = 1 \<or> splitRoutes s = 1)"
  using getRouteSummary_returns[OF assms] by blast

lemma BigInt_of_string_3: "BigInt_of_string ''3'' = Inr 3"
  by (simp add: BigInt_of_digits is_digit_def digits_value_def char_value_def)

lemma sample_steps_parse: "fee_amounts_parse (map (\<lambda>(i, out, pct). sample_step i out pct) xs)"
  by (induction xs) (auto simp: fee_amounts_parse_def sample_step_def BigInt_of_string_3)

theorem getRouteSummary_splitRoutes_witness:
  "fee_amounts_parse [sample_step ''SOL'' ''USDC'' 60, sample_step ''SOL'' ''USDC'' 40]
   \<and> (\<exists>s. getRouteSummary (sample_quote ExactIn ''1000'' ''990'' ''0.1''
                [sample_step ''SOL'' ''USDC'' 60, sample_step ''SOL'' ''USDC'' 40]) = Inr s
          \<and> splitRoutes s = 2 \<and> isDirectRoute s = False)"
proof -
  let ?plan = "[sample_step ''SOL'' ''USDC'' 60, sample_step ''SOL'' ''USDC'' 40]"
  let ?q = "sample_quote ExactIn ''1000'' ''990'' ''0.1'' ?plan"
  have h: "fee_amounts_parse ?plan"
    using sample_steps_parse[of "[(''SOL'', ''USDC'', 60), (''SOL'', ''USDC'', 40)]"] by simp
  then have "fee_amounts_parse (routePlan ?q)" by (simp add: sample_quote_def)
  from getRouteSummary_splitRoutes[OF this] obtain s where
    "getRouteSummary ?q = Inr s" "splitRoutes s = 2" "isDirectRoute s = False"
    by (auto simp: sample_quote_def sample_step_def)
  with h show ?thesis by blast
qed

section \<open>Filtering direct routes\<close>



section \<open>Fee estimate\<close>

text \<open>
  What \<open>estimateTransactionFee\<close> returns when the ledger answers the fee request with
  the value \<open>fee_value\<close>: the fee, unless the value is \<open>null\<close> or zero, in which case it
  returns 5000.
\<close>

lemma estimateTransactionFee_value:
  assumes "getFeeForMessage connection message = Inr fee_value"
  shows "fst (estimateTransactionFee connection (VersionedTransaction message) w)
           = Inr (case fee_value of None \<Rightarrow> 5000 | Some v \<Rightarrow> if v = 0 then 5000 else v)"
    and "fst (estimateTransactionFee connection (Transaction (Inr message)) w)
           = Inr (case fee_value of None \<Rightarrow> 5000 | Some v \<Rightarrow> if v = 0 then 5000 else v)"
  using assms
  by (simp_all add: estimateTransactionFee_def await_getFeeForMessage_def or_else_def)

text \<open>
  Claim C9 says that the fee reported by the ledger is returned whenever there is one, and
  that 5000 is returned exactly when there is none.  A ledger that reports a fee of 0 gets
  5000: the operator \<open>||\<close> treats the number 0 like \<open>null\<close>.
\<close>

theorem estimateTransactionFee_zero_fee:
  "fst (estimateTransactionFee
          (sample_connection (\<lambda>_. Inr None) (Inr None) (\<lambda>_. Inl (Error ''down'')) (Inr (Some 0)))
          (VersionedTransaction ''message'') (start 0)) = Inr 5000"
  by (simp add: estimateTransactionFee_def await_getFeeForMessage_def or_else_def
      sample_connection_def)

section \<open>Validation of a quote request\<close>







section \<open>Efficiency of a route\<close>


text \<open>
  A price impact that does not parse gives \<open>NaN\<close> and the last recommendation.
\<close>

lemma analyzeRouteEfficiency_not_a_number:
  assumes "parseFloat (priceImpactPct quote) = NaN"
  shows "efficiency (analyzeRouteEfficiency quote) = NaN"
    and "recommendation (analyzeRouteEfficiency quote) =
      ''High price impact detected. Consider splitting the trade or waiting for better liquidity''"
  by (simp_all add: analyzeRouteEfficiency_def Let_def assms)






section \<open>Formatting and parsing amounts\<close>

subsection \<open>Powers of ten that are exact in binary64\<close>

lemma round_binary64_small: "n < 2 ^ 53 \<Longrightarrow> round_binary64 n = n"
  by (simp add: round_binary64_def)

lemma bit_length_double: "0 < n \<Longrightarrow> bit_length (2 * n) = Suc (bit_length n)"
  by (subst bit_length.simps) simp

lemma bit_length_shift: "0 < n \<Longrightarrow> bit_length (n * 2 ^ k) = bit_length n + k"
proof (induction k)
  case 0
  then show ?case by simp
next
  case (Suc k)
  have e: "n * 2 ^ Suc k = 2 * (n * 2 ^ k)" by simp
  have "0 < n * 2 ^ k" using Suc.prems by simp
  then have "bit_length (2 * (n * 2 ^ k)) = Suc (bit_length (n * 2 ^ k))"
    by (rule bit_length_double)
  with Suc show ?case unfolding e by simp
qed

lemma bit_length_bound: "n < 2 ^ k \<Longrightarrow> bit_length n \<le> k"
proof (induction n arbitrary: k rule: bit_length.induct)
  case (1 n)
  show ?case
  proof (cases "n = 0")
    case True
    then show ?thesis by (subst bit_length.simps) simp
  next
    case False
    with "1.prems" obtain j where k: "k = Suc j" by (cases k) auto
    with "1.prems" have "n div 2 < 2 ^ j" by auto
    with "1.IH"[OF False] have "bit_length (n div 2) \<le> j" by blast
    with False k show ?thesis by (subst bit_length.simps) simp
  qed
qed

lemma round_binary64_odd_times_power:
  assumes "q < 2 ^ 53" "0 < q"
  shows "round_binary64 (q * 2 ^ k) = q * 2 ^ k"
proof (cases "q * 2 ^ k < 2 ^ 53")
  case True
  then show ?thesis by (rule round_binary64_small)
next
  case False
  have b: "bit_length (q * 2 ^ k) = bit_length q + k"
    using assms(2) by (rule bit_length_shift)
  have "bit_length q \<le> 53" using assms(1) by (rule bit_length_bound)
  define e where "e = bit_length (q * 2 ^ k) - 53"
  have "e \<le> k" using b \<open>bit_length q \<le> 53\<close> by (simp add: e_def)
  then obtain j where j: "k = e + j"
    using le_Suc_ex by blast
  have "(2::nat) ^ k = 2 ^ e * 2 ^ j"
    by (simp only: j power_add)
  then have "q * 2 ^ k = (q * 2 ^ j) * 2 ^ e"
    by (simp only: mult.assoc mult.commute[of "2 ^ e"])
  then have m: "q * 2 ^ k mod 2 ^ e = 0" by (simp only: mod_mult_self2_is_0)
  then have d: "q * 2 ^ k div 2 ^ e * 2 ^ e = q * 2 ^ k"
    by (simp add: mod_0_imp_dvd)
  show ?thesis
    using False m d
    by (simp add: round_binary64_def Let_def e_def[symmetric])
qed

lemma pow10_exact:
  assumes "d \<le> 22"
  shows "pow10 d = Num (of_nat (10 ^ d))"
proof -
  have "(5::nat) ^ d \<le> 5 ^ 22" using assms by (intro power_increasing) auto
  also have "(5::nat) ^ 22 < 2 ^ 53" by simp
  finally have q: "(5::nat) ^ d < 2 ^ 53" .
  have "(10::nat) ^ d = 5 ^ d * 2 ^ d"
    by (simp add: power_mult_distrib[symmetric])
  then have r: "round_binary64 (10 ^ d) = 10 ^ d"
    using round_binary64_odd_times_power[OF q, of d] by simp
  have "(10::nat) ^ d \<le> 10 ^ 22" using assms by (intro power_increasing) auto
  also have "(10::nat) ^ 22 < 2 ^ 1024" by simp
  finally have "(10::nat) ^ d < 2 ^ 1024" .
  with r show ?thesis by (simp add: pow10_def Let_def)
qed

subsection \<open>Decimal notation without leading zeros\<close>

lemma digits_value_append:
  "digits_value 10 (a @ b) = digits_value 10 a * 10 ^ length b + digits_value 10 b"
proof (induction b rule: rev_induct)
  case Nil
  then show ?case by (simp add: digits_value_def)
next
  case (snoc c b)
  have "digits_value 10 (a @ b @ [c])
          = 10 * digits_value 10 (a @ b) + (case char_value c of Some v \<Rightarrow> v | None \<Rightarrow> 0)"
    using digits_value_snoc[of 10 "a @ b" c] by simp
  with snoc show ?case
    by (simp add: digits_value_snoc algebra_simps)
qed

lemma digits_value_zeros: "digits_value 10 (replicate k (CHR ''0'')) = 0"
proof (induction k)
  case 0
  then show ?case by (simp add: digits_value_def)
next
  case (Suc k)
  have "replicate (Suc k) (CHR ''0'') = replicate k (CHR ''0'') @ [CHR ''0'']"
    by (simp add: replicate_append_same)
  with Suc show ?case
    by (simp only: digits_value_snoc) (simp add: char_value_def)
qed

lemma digit_value_less: "is_digit c \<Longrightarrow> (case char_value c of Some v \<Rightarrow> v | None \<Rightarrow> 0) < 10"
  by (auto simp: is_digit_char_value is_digit_def)

lemma digit_value_char: "is_digit c \<Longrightarrow> char_of (48 + (case char_value c of Some v \<Rightarrow> v | None \<Rightarrow> 0)) = c"
  by (simp add: is_digit_char_value is_digit_def)

lemma digit_value_zero:
  "is_digit c \<Longrightarrow> ((case char_value c of Some v \<Rightarrow> v | None \<Rightarrow> 0) = 0) = (c = CHR ''0'')"
proof -
  assume d: "is_digit c"
  have "(of_char c = (48::nat)) = (c = CHR ''0'')"
  proof
    assume "of_char c = (48::nat)"
    then have "char_of (of_char c :: nat) = char_of (48::nat)" by simp
    then show "c = CHR ''0''" by (simp add: digit_chars)
  next
    assume "c = CHR ''0''"
    then show "of_char c = (48::nat)" by simp
  qed
  with d show ?thesis
    by (auto simp: is_digit_char_value is_digit_def)
qed


lemma nat_digits_0: "nat_digits 0 = ''0''"
  by (simp add: eval_digits)

lemma hd_nat_digits: "0 < n \<Longrightarrow> hd (nat_digits n) \<noteq> CHR ''0''"
proof (induction n rule: nat_digits.induct)
  case (1 n)
  show ?case
  proof (cases "n < 10")
    case True
    have "char_of (48 + n) \<noteq> char_of (48::nat)"
      using True "1.prems" by simp
    with True show ?thesis
      by (subst nat_digits.simps) (simp add: digit_chars)
  next
    case False
    then have "0 < n div 10" by simp
    with "1.IH" False have "hd (nat_digits (n div 10)) \<noteq> CHR ''0''" by simp
    with False show ?thesis
      by (subst nat_digits.simps) (simp add: nat_digits_nonempty)
  qed
qed

lemma digits_value_Cons:
  "digits_value 10 (c # s)
     = (case char_value c of Some v \<Rightarrow> v | None \<Rightarrow> 0) * 10 ^ length s + digits_value 10 s"
  using digits_value_append[of "[c]" s] by (simp add: digits_value_def)

lemma digits_value_pos:
  assumes "is_digit c" "c \<noteq> CHR ''0''"
  shows "0 < digits_value 10 (c # s)"
  using assms digit_value_zero[of c] by (simp add: digits_value_Cons)

lemma nat_digits_of_value:
  "list_all is_digit s \<Longrightarrow> s \<noteq> [] \<Longrightarrow> hd s \<noteq> CHR ''0''
     \<Longrightarrow> nat_digits (digits_value 10 s) = s"
proof (induction s rule: rev_induct)
  case Nil
  then show ?case by simp
next
  case (snoc c t)
  let ?v = "(case char_value c of Some v \<Rightarrow> v | None \<Rightarrow> 0)"
  from snoc.prems have c: "is_digit c" and t: "list_all is_digit t" by simp_all
  show ?case
  proof (cases "t = []")
    case True
    with c show ?thesis
      by (subst nat_digits.simps)
         (simp add: digits_value_def digit_value_less digit_value_char)
  next
    case False
    with snoc.prems have h: "hd t \<noteq> CHR ''0''" by simp
    with snoc.IH t False have ih: "nat_digits (digits_value 10 t) = t" by simp
    from False t h have "0 < digits_value 10 t"
      by (cases t) (auto intro: digits_value_pos)
    then have big: "\<not> 10 * digits_value 10 t + ?v < 10" by simp
    have dv: "(10 * digits_value 10 t + ?v) div 10 = digits_value 10 t"
      "(10 * digits_value 10 t + ?v) mod 10 = ?v"
      using digit_value_less[OF c] by simp_all
    show ?thesis
      unfolding digits_value_snoc
      by (subst nat_digits.simps) (simp only: big dv if_False ih digit_value_char[OF c])
  qed
qed

lemma strip_leading_zeros_value:
  "list_all is_digit s \<Longrightarrow>
   (if strip_leading_zeros s = [] then ''0'' else strip_leading_zeros s)
     = nat_digits (digits_value 10 s)"
proof (induction s)
  case Nil
  then show ?case by (simp add: strip_leading_zeros_def digits_value_def nat_digits_0)
next
  case (Cons c s)
  show ?case
  proof (cases "c = CHR ''0''")
    case True
    then have v: "digits_value 10 (c # s) = digits_value 10 s"
      by (simp add: digits_value_Cons char_value_def)
    from True have z: "strip_leading_zeros (c # s) = strip_leading_zeros s"
      by (simp add: strip_leading_zeros_def)
    from Cons have "(if strip_leading_zeros s = [] then ''0'' else strip_leading_zeros s)
                      = nat_digits (digits_value 10 s)"
      by simp
    then show ?thesis by (simp only: v z)
  next
    case False
    with Cons.prems have "nat_digits (digits_value 10 (c # s)) = c # s"
      by (intro nat_digits_of_value) simp_all
    with False show ?thesis by (simp add: strip_leading_zeros_def)
  qed
qed

lemma split_on_none: "c \<notin> set w \<Longrightarrow> split_on c w = [w]"
  by (induction w) auto

lemma split_on_one: "c \<notin> set w \<Longrightarrow> split_on c (w @ c # f) = w # split_on c f"
  by (induction w) auto

lemma digits_no_dot: "list_all is_digit s \<Longrightarrow> CHR ''.'' \<notin> set s"
  using is_digit_neq(9) by (auto simp: list_all_iff)

lemma strip_trailing_zeros_pad:
  "strip_trailing_zeros s
     @ replicate (length s - length (strip_trailing_zeros s)) (CHR ''0'') = s"
proof -
  let ?P = "\<lambda>c. c = CHR ''0''"
  have tw: "takeWhile ?P xs = replicate (length (takeWhile ?P xs)) (CHR ''0'')" for xs
    by (induction xs) auto
  have "rev s = takeWhile ?P (rev s) @ dropWhile ?P (rev s)" by simp
  then have "s = rev (dropWhile ?P (rev s)) @ rev (takeWhile ?P (rev s))"
    by (metis rev_append rev_rev_ident)
  moreover have "rev (takeWhile ?P (rev s)) = replicate (length (takeWhile ?P (rev s))) (CHR ''0'')"
    by (subst tw) simp
  moreover have "length (takeWhile ?P (rev s)) = length s - length (dropWhile ?P (rev s))"
    by (metis add_diff_cancel_right' length_append length_rev takeWhile_dropWhile_id)
  ultimately show ?thesis by (simp add: strip_trailing_zeros_def)
qed

lemma strip_trailing_zeros_digits:
  "list_all is_digit s \<Longrightarrow> list_all is_digit (strip_trailing_zeros s)"
  by (auto simp: strip_trailing_zeros_def list_all_iff dest: set_dropWhileD)

lemma strip_trailing_zeros_last:
  "strip_trailing_zeros s \<noteq> [] \<Longrightarrow> last (strip_trailing_zeros s) \<noteq> CHR ''0''"
  unfolding strip_trailing_zeros_def
  by (metis (mono_tags, lifting) hd_dropWhile last_rev rev_is_Nil_conv)

lemma length_nat_digits: "n < 10 ^ k \<Longrightarrow> 0 < k \<Longrightarrow> length (nat_digits n) \<le> k"
proof (induction n arbitrary: k rule: nat_digits.induct)
  case (1 n)
  show ?case
  proof (cases "n < 10")
    case True
    with "1.prems" show ?thesis by (subst nat_digits.simps) simp
  next
    case False
    from "1.prems" obtain j where k: "k = Suc j" by (cases k) auto
    with "1.prems" have lt: "n div 10 < 10 ^ j" by (simp add: less_mult_imp_div_less mult.commute)
    with False have "0 < j" by (cases j) auto
    with "1.IH"[OF False lt] have "length (nat_digits (n div 10)) \<le> j" by simp
    with False k show ?thesis by (subst nat_digits.simps) simp
  qed
qed

subsection \<open>Formatting with a given divisor\<close>

lemma BigInt_of_natural: "BigInt_of_number (Num (of_nat D)) = Inr (int D)"
  by (simp add: BigInt_of_number_def)

lemma formatAmount_with_divisor:
  assumes "is_decimal amount" and "0 < D"
  shows "formatAmount_with (Num (of_nat D)) amount decimals =
           Inr (let n = digits_value 10 amount;
                    whole = nat_digits (n div D);
                    fraction = n mod D
                in if fraction = 0 then whole
                   else whole @ ''.''
                        @ strip_trailing_zeros (padStart (nat_digits fraction) decimals (CHR ''0'')))"
proof -
  define n where "n = digits_value 10 amount"
  have a: "BigInt_of_string amount = Inr (int n)"
    using assms(1) by (simp add: BigInt_of_decimal decimal_value_def n_def)
  have q: "bigint_div (int n) (int D) = Inr (int (n div D))"
    using assms(2) by (subst bigint_div_nonneg) (simp_all add: zdiv_int)
  have r: "bigint_rem (int n) (int D) = Inr (int (n mod D))"
    using assms(2) by (subst bigint_rem_nonneg) (simp_all add: zmod_int)
  have s: "BigInt_toString (int k) = nat_digits k" for k
    by (simp add: BigInt_toString_def)
  show ?thesis
    unfolding n_def[symmetric]
    by (simp add: formatAmount_with_def a BigInt_of_natural q r s Let_def)
qed

lemma parseAmount_digits:
  assumes "list_all is_digit w" and "list_all is_digit fr" and "length fr \<le> d"
  shows "parseAmount w d = nat_digits (digits_value 10 w * 10 ^ d)"
    and "parseAmount (w @ ''.'' @ fr) d
           = nat_digits (digits_value 10 w * 10 ^ d + digits_value 10 fr * 10 ^ (d - length fr))"
proof -
  let ?z = "\<lambda>k. replicate k (CHR ''0'')"
  have strip: "(if strip_leading_zeros s = [] then ''0'' else strip_leading_zeros s)
                 = nat_digits (digits_value 10 s)" if "list_all is_digit s" for s
    using that by (rule strip_leading_zeros_value)
  have zd: "list_all is_digit (?z k)" for k
    by (simp add: list_all_iff is_digit_def)
  have "split_on (CHR ''.'') w = [w]"
    using assms(1) by (intro split_on_none digits_no_dot)
  then have "parseAmount w d
      = (if strip_leading_zeros (w @ ?z d) = [] then ''0'' else strip_leading_zeros (w @ ?z d))"
    by (simp add: parseAmount_def padEnd_def Let_def)
  also have "\<dots> = nat_digits (digits_value 10 (w @ ?z d))"
    using assms(1) zd by (intro strip) simp
  finally show "parseAmount w d = nat_digits (digits_value 10 w * 10 ^ d)"
    by (simp add: digits_value_append digits_value_zeros)
  have "split_on (CHR ''.'') (w @ ''.'' @ fr) = [w, fr]"
    using assms(1,2) by (simp add: split_on_one split_on_none digits_no_dot)
  moreover have "take d (padEnd fr d (CHR ''0'')) = fr @ ?z (d - length fr)"
    using assms(3) by (simp add: padEnd_def)
  ultimately have "parseAmount (w @ ''.'' @ fr) d
      = (if strip_leading_zeros (w @ fr @ ?z (d - length fr)) = [] then ''0''
         else strip_leading_zeros (w @ fr @ ?z (d - length fr)))"
    by (simp add: parseAmount_def Let_def)
  also have "\<dots> = nat_digits (digits_value 10 (w @ fr @ ?z (d - length fr)))"
    using assms(1,2) zd by (intro strip) simp
  finally show "parseAmount (w @ ''.'' @ fr) d
           = nat_digits (digits_value 10 w * 10 ^ d + digits_value 10 fr * 10 ^ (d - length fr))"
    using assms(3)
    by (simp add: digits_value_append digits_value_zeros algebra_simps power_add[symmetric])
qed

lemma fraction_string:
  assumes "f < 10 ^ d" and "0 < d"
  defines "fs \<equiv> padStart (nat_digits f) d (CHR ''0'')"
  shows "length fs = d" and "list_all is_digit fs" and "digits_value 10 fs = f"
    and "length (strip_trailing_zeros fs) \<le> d"
    and "digits_value 10 (strip_trailing_zeros fs) * 10 ^ (d - length (strip_trailing_zeros fs)) = f"
proof -
  have l: "length (nat_digits f) \<le> d" using assms(1,2) by (rule length_nat_digits)
  then show len: "length fs = d" by (simp add: fs_def padStart_def)
  show dig: "list_all is_digit fs"
    by (simp add: fs_def padStart_def nat_digits_all_digits) (simp add: list_all_iff is_digit_def)
  show val: "digits_value 10 fs = f"
    by (simp add: fs_def padStart_def digits_value_append digits_value_zeros
        digits_value_nat_digits)
  have p: "strip_trailing_zeros fs
             @ replicate (length fs - length (strip_trailing_zeros fs)) (CHR ''0'') = fs"
    by (rule strip_trailing_zeros_pad)
  then have "length (strip_trailing_zeros fs) \<le> length fs"
    by (metis le_add1 length_append)
  then show "length (strip_trailing_zeros fs) \<le> d" using len by simp
  have "digits_value 10 fs
          = digits_value 10 (strip_trailing_zeros fs)
              * 10 ^ (length fs - length (strip_trailing_zeros fs))"
    by (subst p[symmetric]) (simp only: digits_value_append digits_value_zeros length_replicate add_0_right)
  with val len show "digits_value 10 (strip_trailing_zeros fs)
      * 10 ^ (d - length (strip_trailing_zeros fs)) = f"
    by simp
qed

text \<open>
  Formatting with the divisor \<open>D\<close> and parsing the result: the quotient is read as the
  integer part and the remainder as the fraction of \<open>decimals\<close> digits.
\<close>

lemma parseAmount_formatAmount_with:
  assumes "is_decimal amount" and "0 < D"
    and "digits_value 10 amount mod D < 10 ^ decimals"
  shows "\<exists>s. formatAmount_with (Num (of_nat D)) amount decimals = Inr s
           \<and> parseAmount s decimals
               = nat_digits (digits_value 10 amount div D * 10 ^ decimals
                             + digits_value 10 amount mod D)"
proof -
  define n where "n = digits_value 10 amount"
  define q where "q = n div D"
  define f where "f = n mod D"
  have dq: "list_all is_digit (nat_digits q)" "digits_value 10 (nat_digits q) = q"
    by (simp_all add: nat_digits_all_digits digits_value_nat_digits)
  have flt: "f < 10 ^ decimals" using assms(3) by (simp add: f_def n_def)
  show ?thesis
  proof (cases "f = 0")
    case True
    then have "formatAmount_with (Num (of_nat D)) amount decimals = Inr (nat_digits q)"
      using formatAmount_with_divisor[OF assms(1,2)] by (simp add: Let_def n_def q_def f_def)
    moreover have "parseAmount (nat_digits q) decimals = nat_digits (q * 10 ^ decimals + f)"
      using parseAmount_digits(1)[OF dq(1), of "[]" decimals] True by (simp add: dq)
    ultimately show ?thesis by (simp add: n_def q_def f_def)
  next
    case False
    with flt have d: "0 < decimals" by (cases decimals) auto
    let ?fs = "padStart (nat_digits f) decimals (CHR ''0'')"
    let ?fr = "strip_trailing_zeros ?fs"
    note fr = fraction_string[OF flt d]
    have frd: "list_all is_digit ?fr" using fr(2) by (rule strip_trailing_zeros_digits)
    from False have "formatAmount_with (Num (of_nat D)) amount decimals
                       = Inr (nat_digits q @ ''.'' @ ?fr)"
      using formatAmount_with_divisor[OF assms(1,2)] by (simp add: Let_def n_def q_def f_def)
    moreover have "parseAmount (nat_digits q @ ''.'' @ ?fr) decimals
                     = nat_digits (q * 10 ^ decimals + f)"
      using parseAmount_digits(2)[OF dq(1) frd fr(4)] fr(5) by (simp add: dq)
    ultimately show ?thesis by (simp add: n_def q_def f_def)
  qed
qed

subsection \<open>Up to 22 decimals\<close>

text \<open>
  Up to 22 decimals the number \<open>10 ** decimals\<close> is exact.  The integer part of the
  formatted amount is written without leading zeros, the fraction without trailing zeros,
  and parsing the formatted amount gives back the amount in its decimal notation without
  leading zeros.
\<close>

lemma formatAmount_decimal:
  assumes "is_decimal amount" and "decimals \<le> 22"
  shows "formatAmount amount decimals =
           Inr (let n = digits_value 10 amount;
                    whole = nat_digits (n div 10 ^ decimals);
                    fraction = n mod 10 ^ decimals
                in if fraction = 0 then whole
                   else whole @ ''.''
                        @ strip_trailing_zeros (padStart (nat_digits fraction) decimals (CHR ''0'')))"
  using formatAmount_with_divisor[OF assms(1), of "10 ^ decimals" decimals]
  by (simp add: formatAmount_def pow10_exact[OF assms(2)])

lemma formatAmount_parts:
  "0 < q \<Longrightarrow> hd (nat_digits q) \<noteq> CHR ''0''"
  "nat_digits 0 = ''0''"
  "0 < f \<Longrightarrow> strip_trailing_zeros (padStart (nat_digits f) d (CHR ''0'')) \<noteq> []"
  "0 < f \<Longrightarrow> last (strip_trailing_zeros (padStart (nat_digits f) d (CHR ''0''))) \<noteq> CHR ''0''"
proof -
  show "0 < q \<Longrightarrow> hd (nat_digits q) \<noteq> CHR ''0''" by (rule hd_nat_digits)
  show "nat_digits 0 = ''0''" by (rule nat_digits_0)
  have ne: "strip_trailing_zeros (padStart (nat_digits f) d (CHR ''0'')) \<noteq> []" if "0 < f"
  proof
    let ?fs = "padStart (nat_digits f) d (CHR ''0'')"
    assume e: "strip_trailing_zeros ?fs = []"
    have "strip_trailing_zeros ?fs
            @ replicate (length ?fs - length (strip_trailing_zeros ?fs)) (CHR ''0'') = ?fs"
      by (rule strip_trailing_zeros_pad)
    with e have "?fs = replicate (length ?fs) (CHR ''0'')" by simp
    then have "digits_value 10 ?fs = 0" by (metis digits_value_zeros)
    moreover have "digits_value 10 ?fs = f"
      by (simp add: padStart_def digits_value_append digits_value_zeros digits_value_nat_digits)
    ultimately show False using that by simp
  qed
  then show "0 < f \<Longrightarrow> strip_trailing_zeros (padStart (nat_digits f) d (CHR ''0'')) \<noteq> []" .
  show "0 < f \<Longrightarrow> last (strip_trailing_zeros (padStart (nat_digits f) d (CHR ''0''))) \<noteq> CHR ''0''"
    using ne by (intro strip_trailing_zeros_last)
qed

lemma parseAmount_formatAmount:
  assumes "is_decimal amount" and "decimals \<le> 22"
  shows "\<exists>s. formatAmount amount decimals = Inr s
           \<and> parseAmount s decimals = nat_digits (digits_value 10 amount)"
proof -
  have "digits_value 10 amount div 10 ^ decimals * 10 ^ decimals
          + digits_value 10 amount mod 10 ^ decimals = digits_value 10 amount"
    by (rule div_mult_mod_eq)
  with parseAmount_formatAmount_with[OF assms(1), of "10 ^ decimals" decimals]
  show ?thesis
    by (simp add: formatAmount_def pow10_exact[OF assms(2)])
qed

lemma parseAmount_formatAmount_canonical:
  assumes "decimals \<le> 22"
  shows "\<exists>s. formatAmount (nat_digits n) decimals = Inr s \<and> parseAmount s decimals = nat_digits n"
  using parseAmount_formatAmount[of "nat_digits n" decimals] assms
  by (simp add: is_decimal_def nat_digits_nonempty nat_digits_all_digits digits_value_nat_digits)

subsection \<open>23 decimals\<close>

lemma pow10_23: "pow10 23 = Num 99999999999999991611392"
  by (simp add: pow10_def round_binary64_def Let_def bit_length.simps)

lemma decimal_10_pow_23:
  "is_decimal ''100000000000000000000000''"
  "decimal_value ''100000000000000000000000'' = 100000000000000000000000"
  "digits_value 10 ''100000000000000000000000'' = 10 ^ 23"
  "nat_digits (10 ^ 23) = ''100000000000000000000000''"
  by (simp_all add: is_decimal_def decimal_value_def is_digit_def digits_value_def char_value_def
      eval_digits)

lemma sixteen_zeros: "replicate 16 (CHR ''0'') = ''0000000000000000''"
  by (simp add: numeral_eq_Suc)

text \<open>
  Claim C2 says that parsing a formatted amount gives the amount back for every number
  of decimals, since amounts never pass through floating point.  The divisor
  \<open>BigInt(10 ** decimals)\<close> does: with 23 decimals the correctly rounded power is
  99999999999999991611392, and the amount \<open>10 ^ 23\<close> is formatted as
  1.00000000000000008388608 and parsed back as another amount.
\<close>

theorem formatAmount_23_decimals:
  "formatAmount ''100000000000000000000000'' 23 = Inr ''1.00000000000000008388608''
   \<and> parseAmount ''1.00000000000000008388608'' 23 = ''100000000000000008388608''"
proof
  show "formatAmount ''100000000000000000000000'' 23 = Inr ''1.00000000000000008388608''"
    by (simp add: formatAmount_def formatAmount_with_def BigInt_of_decimal decimal_10_pow_23(1,2)
        pow10_23 BigInt_of_number_def bigint_div_def bigint_rem_def eval_digits padStart_def
        strip_trailing_zeros_def sixteen_zeros)
  show "parseAmount ''1.00000000000000008388608'' 23 = ''100000000000000008388608''"
    by (simp add: parseAmount_def padEnd_def strip_leading_zeros_def)
qed

text \<open>
  No binary64 number is \<open>10 ^ 23\<close>: a significand below \<open>2 ^ 53\<close> times a power of two
  is a different integer.
\<close>

lemma ten_pow_23_not_binary64:
  assumes "m < 2 ^ 53"
  shows "m * 2 ^ e \<noteq> (10::nat) ^ 23"
proof
  assume eq: "m * 2 ^ e = (10::nat) ^ 23"
  have t: "(10::nat) ^ 23 = 5 ^ 23 * 2 ^ 23" by simp
  show False
  proof (cases "e \<le> 23")
    case True
    then obtain j where j: "23 = e + j" using le_Suc_ex by blast
    have "(2::nat) ^ 23 = 2 ^ j * 2 ^ e" by (simp only: j power_add mult.commute)
    with eq t have "m * 2 ^ e = (5 ^ 23 * 2 ^ j) * 2 ^ e" by (simp only: mult.assoc)
    then have "m = 5 ^ 23 * 2 ^ j" by simp
    then have "(5::nat) ^ 23 \<le> m" by simp
    with assms show False by simp
  next
    case False
    then obtain j where j: "e = 23 + Suc j"
      by (metis add_Suc_right less_imp_Suc_add not_le)
    have "(2::nat) ^ e = (2 * 2 ^ j) * 2 ^ 23" by (simp only: j power_add power_Suc mult.commute)
    with eq t have "(m * (2 * 2 ^ j)) * 2 ^ 23 = 5 ^ 23 * (2::nat) ^ 23" by (simp only: mult.assoc)
    then have "m * (2 * 2 ^ j) = (5::nat) ^ 23" by simp
    then have "even ((5::nat) ^ 23)" by (metis dvd_triv_left dvd_mult)
    then show False by simp
  qed
qed

text \<open>
  Whatever positive integer other than \<open>10 ^ 23\<close> the power is, the amount \<open>10 ^ 23\<close>
  does not survive formatting and parsing with 23 decimals.
\<close>

lemma parseAmount_formatAmount_with_23:
  assumes "0 < D" and "D \<noteq> 10 ^ 23"
  shows "\<exists>s. formatAmount_with (Num (of_nat D)) ''100000000000000000000000'' 23 = Inr s
           \<and> parseAmount s 23 \<noteq> ''100000000000000000000000''"
proof (cases "D < 10 ^ 23")
  case True
  let ?n = "(10::nat) ^ 23"
  have "?n mod D < D" using assms(1) by simp
  with True have lt: "digits_value 10 ''100000000000000000000000'' mod D < 10 ^ 23"
    by (simp only: decimal_10_pow_23(3))
  from parseAmount_formatAmount_with[OF decimal_10_pow_23(1) assms(1) lt]
  obtain s where s: "formatAmount_with (Num (of_nat D)) ''100000000000000000000000'' 23 = Inr s"
    "parseAmount s 23 = nat_digits (?n div D * 10 ^ 23 + ?n mod D)"
    by (auto simp only: decimal_10_pow_23(3))
  have "?n div D * 10 ^ 23 + ?n mod D \<noteq> ?n"
  proof
    assume e: "?n div D * 10 ^ 23 + ?n mod D = ?n"
    have "D \<le> ?n" using True by simp
    then have "0 < ?n div D" using assms(1) by (simp only: div_greater_zero_iff)
    then have q: "1 \<le> ?n div D" by simp
    have "?n div D * ?n \<le> ?n" using e by simp
    with q have "?n div D = 1" by simp
    with e have "?n mod D = 0" by simp
    with \<open>?n div D = 1\<close> have "D = ?n" using div_mult_mod_eq[of ?n D] by simp
    with assms(2) show False by simp
  qed
  then have "nat_digits (?n div D * 10 ^ 23 + ?n mod D) \<noteq> nat_digits ?n"
    by (metis digits_value_nat_digits)
  with s show ?thesis by (auto simp only: decimal_10_pow_23(4))
next
  case False
  with assms(2) have gt: "10 ^ 23 < D" by simp
  then have dm: "(10::nat) ^ 23 div D = 0" "(10::nat) ^ 23 mod D = 10 ^ 23" by simp_all
  have nd: "nat_digits 100000000000000000000000 = ''100000000000000000000000''"
    using decimal_10_pow_23(4) by simp
  have st: "strip_trailing_zeros (padStart ''100000000000000000000000'' 23 (CHR ''0'')) = ''1''"
    by (simp add: padStart_def strip_trailing_zeros_def)
  have "formatAmount_with (Num (of_nat D)) ''100000000000000000000000'' 23 = Inr ''0.1''"
    using formatAmount_with_divisor[OF decimal_10_pow_23(1) assms(1), of 23]
    by (simp only: decimal_10_pow_23(3) dm Let_def) (simp add: nat_digits_0 nd st)
  moreover have "parseAmount ''0.1'' 23 = ''10000000000000000000000''"
    by (simp add: parseAmount_def padEnd_def strip_leading_zeros_def numeral_eq_Suc)
  ultimately show ?thesis by simp
qed


section \<open>The clock and the trace\<close>

lemma clock_of_snoc:
  "clock_of connection t (evs @ [ev])
     = clock_of connection t evs + (case ev of SetTimeout ms \<Rightarrow> ms | _ \<Rightarrow> 0)
       + latency connection (length evs)"
  by (simp add: clock_of_def waited_def)

lemma await_request:
  assumes "clock w = clock_of connection t (events w)"
    and "\<And>ms. ev \<noteq> SetTimeout ms"
  shows "await connection ev 0 w
           = \<lparr>clock = clock_of connection t (events w @ [ev]), events = events w @ [ev]\<rparr>"
  using assms by (cases ev) (auto simp: await_def clock_of_snoc)

lemma sleep_timer:
  assumes "clock w = clock_of connection t (events w)"
  shows "sleep connection ms w
           = \<lparr>clock = clock_of connection t (events w @ [SetTimeout ms]),
              events = events w @ [SetTimeout ms]\<rparr>"
  using assms by (simp add: sleep_def await_def clock_of_snoc)

lemma start_world:
  "blockhash_requests (events (start t)) = 0" "status_requests (events (start t)) = 0"
  "clock (start t) = clock_of connection t (events (start t))"
  "events (start t) = []"
  by (simp_all add: start_def blockhash_requests_def status_requests_def clock_of_def waited_def)

section \<open>Blockhash with retries\<close>

lemma backoff_events_step:
  "i < k \<Longrightarrow> backoff_events i k
      = [GetLatestBlockhash, SetTimeout (1000 * (i + 1))] @ backoff_events (Suc i) k"
  by (simp add: backoff_events_def upt_conv_Cons)

lemma backoff_events_empty: "backoff_events i i = []"
  by (simp add: backoff_events_def)

lemma blockhash_loop_success:
  assumes "blockhash_requests (events w) = i"
    and "\<forall>j. i \<le> j \<and> j < k \<longrightarrow> throws (getLatestBlockhash connection j)"
    and "i \<le> k" and "k < n"
    and "getLatestBlockhash connection k = Inr b"
    and "clock w = clock_of connection t (events w)"
  shows "blockhash_loop connection n i lastError w
           = (Inr b,
              \<lparr>clock = clock_of connection t
                         (events w @ backoff_events i k @ [GetLatestBlockhash]),
               events = events w @ backoff_events i k @ [GetLatestBlockhash]\<rparr>)"
  using assms
proof (induction "k - i" arbitrary: i w lastError)
  case 0
  then have ik: "i = k" by simp
  have a: "await connection GetLatestBlockhash 0 w
             = \<lparr>clock = clock_of connection t (events w @ [GetLatestBlockhash]),
                events = events w @ [GetLatestBlockhash]\<rparr>"
    using "0.prems"(6) by (intro await_request) simp_all
  show ?case
    using "0.prems"(1,4,5) ik
    by (subst blockhash_loop.simps)
       (simp add: await_getLatestBlockhash_def blockhash_requests_def a backoff_events_empty)
next
  case (Suc d)
  then have ik: "i < k" by simp
  with Suc.prems(2) have "throws (getLatestBlockhash connection i)" by simp
  then obtain e where e: "getLatestBlockhash connection i = Inl e"
    by (cases "getLatestBlockhash connection i") (simp_all add: throws_def)
  define w1 where "w1 = await connection GetLatestBlockhash 0 w"
  define w2 where "w2 = sleep connection (1000 * (i + 1)) w1"
  have w1: "w1 = \<lparr>clock = clock_of connection t (events w @ [GetLatestBlockhash]),
                   events = events w @ [GetLatestBlockhash]\<rparr>"
    unfolding w1_def using Suc.prems(6) by (intro await_request) simp_all
  then have c1: "clock w1 = clock_of connection t (events w1)" by simp
  have w2: "w2 = \<lparr>clock = clock_of connection t (events w1 @ [SetTimeout (1000 * (i + 1))]),
                   events = events w1 @ [SetTimeout (1000 * (i + 1))]\<rparr>"
    unfolding w2_def using c1 by (rule sleep_timer)
  have ev2: "events w2 = events w @ [GetLatestBlockhash, SetTimeout (1000 * (i + 1))]"
    by (simp add: w2 w1)
  have step: "blockhash_loop connection n i lastError w
                = blockhash_loop connection n (Suc i) (Some (as_Error e)) w2"
    using ik Suc.prems(1,4) e
    by (subst blockhash_loop.simps)
       (simp add: await_getLatestBlockhash_def blockhash_requests_def w1_def w2_def as_Error_def)
  have "blockhash_loop connection n (Suc i) (Some (as_Error e)) w2
          = (Inr b,
             \<lparr>clock = clock_of connection t
                        (events w2 @ backoff_events (Suc i) k @ [GetLatestBlockhash]),
              events = events w2 @ backoff_events (Suc i) k @ [GetLatestBlockhash]\<rparr>)"
  proof (rule Suc.hyps(1))
    show "d = k - Suc i" using Suc.hyps(2) by simp
    show "blockhash_requests (events w2) = Suc i"
      using Suc.prems(1) by (simp add: w2 w1 blockhash_requests_def is_blockhash_request_def)
    show "\<forall>j. Suc i \<le> j \<and> j < k \<longrightarrow> throws (getLatestBlockhash connection j)"
      using Suc.prems(2) by simp
    show "Suc i \<le> k" using ik by simp
    show "k < n" by (rule Suc.prems(4))
    show "getLatestBlockhash connection k = Inr b" by (rule Suc.prems(5))
    show "clock w2 = clock_of connection t (events w2)" by (simp add: w2)
  qed
  then show ?case
    unfolding step by (simp add: ev2 backoff_events_step[OF ik])
qed

lemma blockhash_loop_exhausted:
  assumes "blockhash_requests (events w) = i"
    and "\<forall>j. i \<le> j \<and> j < n \<longrightarrow> throws (getLatestBlockhash connection j)"
    and "i < n"
    and "getLatestBlockhash connection (n - 1) = Inl e"
    and "clock w = clock_of connection t (events w)"
  shows "blockhash_loop connection n i lastError w
           = (Inl (as_Error e),
              \<lparr>clock = clock_of connection t (events w @ backoff_events i n),
               events = events w @ backoff_events i n\<rparr>)"
  using assms
proof (induction "n - i" arbitrary: i w lastError)
  case 0
  then show ?case by simp
next
  case (Suc d)
  from Suc.prems(2,3) have "throws (getLatestBlockhash connection i)" by simp
  then obtain e' where e': "getLatestBlockhash connection i = Inl e'"
    by (cases "getLatestBlockhash connection i") (simp_all add: throws_def)
  define w1 where "w1 = await connection GetLatestBlockhash 0 w"
  define w2 where "w2 = sleep connection (1000 * (i + 1)) w1"
  have w1: "w1 = \<lparr>clock = clock_of connection t (events w @ [GetLatestBlockhash]),
                   events = events w @ [GetLatestBlockhash]\<rparr>"
    unfolding w1_def using Suc.prems(5) by (intro await_request) simp_all
  then have c1: "clock w1 = clock_of connection t (events w1)" by simp
  have w2: "w2 = \<lparr>clock = clock_of connection t (events w1 @ [SetTimeout (1000 * (i + 1))]),
                   events = events w1 @ [SetTimeout (1000 * (i + 1))]\<rparr>"
    unfolding w2_def using c1 by (rule sleep_timer)
  have ev2: "events w2 = events w @ [GetLatestBlockhash, SetTimeout (1000 * (i + 1))]"
    by (simp add: w2 w1)
  have step: "blockhash_loop connection n i lastError w
                = blockhash_loop connection n (Suc i) (Some (as_Error e')) w2"
    using Suc.prems(1,3) e'
    by (subst blockhash_loop.simps)
       (simp add: await_getLatestBlockhash_def blockhash_requests_def w1_def w2_def as_Error_def)
  show ?case
  proof (cases "Suc i < n")
    case True
    have "blockhash_loop connection n (Suc i) (Some (as_Error e')) w2
            = (Inl (as_Error e),
               \<lparr>clock = clock_of connection t (events w2 @ backoff_events (Suc i) n),
                events = events w2 @ backoff_events (Suc i) n\<rparr>)"
    proof (rule Suc.hyps(1))
      show "d = n - Suc i" using Suc.hyps(2) by simp
      show "blockhash_requests (events w2) = Suc i"
        using Suc.prems(1) by (simp add: w2 w1 blockhash_requests_def is_blockhash_request_def)
      show "\<forall>j. Suc i \<le> j \<and> j < n \<longrightarrow> throws (getLatestBlockhash connection j)"
        using Suc.prems(2) by simp
      show "Suc i < n" by (rule True)
      show "getLatestBlockhash connection (n - 1) = Inl e" by (rule Suc.prems(4))
      show "clock w2 = clock_of connection t (events w2)" by (simp add: w2)
    qed
    then show ?thesis
      unfolding step by (simp add: ev2 backoff_events_step[OF Suc.prems(3)])
  next
    case False
    with Suc.prems(3) have n: "n = Suc i" by simp
    with Suc.prems(4) e' have ee: "e' = e" by simp
    have "blockhash_loop connection n (Suc i) (Some (as_Error e')) w2 = (Inl (as_Error e'), w2)"
      using n by (subst blockhash_loop.simps) simp
    moreover have "backoff_events i (Suc i) = [GetLatestBlockhash, SetTimeout (1000 * (i + 1))]"
      by (simp add: backoff_events_def)
    ultimately show ?thesis
      unfolding step by (simp add: ee w2 w1 n)
  qed
qed

lemma blockhash_loop_no_attempt:
  "blockhash_loop connection 0 0 None w = (Inl (Error ''Failed to get recent blockhash''), w)"
  by (subst blockhash_loop.simps) simp

lemma blockhash_requests_backoff: "blockhash_requests (backoff_events 0 k) = k"
proof (induction k)
  case 0
  then show ?case by (simp add: backoff_events_def blockhash_requests_def)
next
  case (Suc k)
  have "backoff_events 0 (Suc k)
          = backoff_events 0 k @ [GetLatestBlockhash, SetTimeout (1000 * (k + 1))]"
    by (simp add: backoff_events_def)
  with Suc show ?case
    by (simp add: blockhash_requests_def is_blockhash_request_def)
qed

lemma getRecentBlockhash_attempts:
  "blockhash_requests (events (snd (getRecentBlockhash connection (Some n) (start t)))) \<le> n"
proof (cases "\<exists>k<n. \<not> throws (getLatestBlockhash connection k)")
  case True
  define k where "k = (LEAST k. k < n \<and> \<not> throws (getLatestBlockhash connection k))"
  from True obtain m where "m < n \<and> \<not> throws (getLatestBlockhash connection m)"
    by blast
  then have k: "k < n \<and> \<not> throws (getLatestBlockhash connection k)"
    unfolding k_def by (rule LeastI)
  have least: "throws (getLatestBlockhash connection j)" if "j < k" for j
  proof (rule ccontr)
    assume "\<not> throws (getLatestBlockhash connection j)"
    with that k have "j < n \<and> \<not> throws (getLatestBlockhash connection j)" by simp
    then have "k \<le> j" unfolding k_def by (rule Least_le)
    with that show False by simp
  qed
  from k obtain b where b: "getLatestBlockhash connection k = Inr b"
    by (cases "getLatestBlockhash connection k") (simp_all add: throws_def)
  have "blockhash_loop connection n 0 None (start t)
          = (Inr b,
             \<lparr>clock = clock_of connection t
                        (events (start t) @ backoff_events 0 k @ [GetLatestBlockhash]),
              events = events (start t) @ backoff_events 0 k @ [GetLatestBlockhash]\<rparr>)"
    using least k b by (intro blockhash_loop_success start_world) simp_all
  then have "events (snd (getRecentBlockhash connection (Some n) (start t)))
               = backoff_events 0 k @ [GetLatestBlockhash]"
    by (simp add: getRecentBlockhash_def start_world(4))
  moreover have "blockhash_requests (backoff_events 0 k @ [GetLatestBlockhash]) = Suc k"
    using blockhash_requests_backoff[of k]
    by (simp add: blockhash_requests_def is_blockhash_request_def)
  ultimately show ?thesis using k by simp
next
  case False
  show ?thesis
  proof (cases "n = 0")
    case True
    then show ?thesis
      by (simp add: getRecentBlockhash_def blockhash_loop_no_attempt start_world(4)
          blockhash_requests_def)
  next
    case n: False
    from False have "throws (getLatestBlockhash connection (n - 1))" using n by simp
    then obtain e where e: "getLatestBlockhash connection (n - 1) = Inl e"
      by (cases "getLatestBlockhash connection (n - 1)") (simp_all add: throws_def)
    have "blockhash_loop connection n 0 None (start t)
            = (Inl (as_Error e),
               \<lparr>clock = clock_of connection t (events (start t) @ backoff_events 0 n),
                events = events (start t) @ backoff_events 0 n\<rparr>)"
      using False n e by (intro blockhash_loop_exhausted start_world) simp_all
    then have "events (snd (getRecentBlockhash connection (Some n) (start t)))
                 = backoff_events 0 n"
      by (simp add: getRecentBlockhash_def start_world(4))
    then show ?thesis by (simp add: blockhash_requests_backoff)
  qed
qed

text \<open>
  Claim C6.  \<open>getRecentBlockhash\<close> makes at most \<open>maxRetries\<close> requests, 3 by default.
  When the first \<open>k\<close> requests fail and request \<open>k\<close>, with \<open>k < maxRetries\<close>, succeeds, it
  returns that blockhash, and between the requests it has waited on timers of 1000 ms
  times the number of the attempt: 1000, 2000, and so on.  When all \<open>maxRetries\<close>
  requests fail, it throws the error of the last one (an \<open>Error\<close> object is thrown as it
  is), after the same timers.  The witness is the connection that fails twice and then
  succeeds.
\<close>

theorem getRecentBlockhash_retries:
  assumes "\<forall>j<k. throws (getLatestBlockhash connection j)"
  shows "(k < n \<and> getLatestBlockhash connection k = Inr b \<longrightarrow>
            getRecentBlockhash connection (Some n) (start t)
              = (Inr b,
                 \<lparr>clock = clock_of connection t (backoff_events 0 k @ [GetLatestBlockhash]),
                  events = backoff_events 0 k @ [GetLatestBlockhash]\<rparr>))
       \<and> (k = n \<and> 0 < n \<and> getLatestBlockhash connection (n - 1) = Inl e \<longrightarrow>
            getRecentBlockhash connection (Some n) (start t)
              = (Inl (as_Error e),
                 \<lparr>clock = clock_of connection t (backoff_events 0 n),
                  events = backoff_events 0 n\<rparr>)
            \<and> (instanceof_Error e \<longrightarrow> as_Error e = e))
       \<and> blockhash_requests (events (snd (getRecentBlockhash connection (Some n) (start t)))) \<le> n
       \<and> getRecentBlockhash connection None (start t)
            = getRecentBlockhash connection (Some 3) (start t)"
proof (intro conjI impI)
  assume a: "k < n \<and> getLatestBlockhash connection k = Inr b"
  have "blockhash_loop connection n 0 None (start t)
          = (Inr b,
             \<lparr>clock = clock_of connection t
                        (events (start t) @ backoff_events 0 k @ [GetLatestBlockhash]),
              events = events (start t) @ backoff_events 0 k @ [GetLatestBlockhash]\<rparr>)"
    using assms a by (intro blockhash_loop_success start_world) simp_all
  then show "getRecentBlockhash connection (Some n) (start t)
              = (Inr b,
                 \<lparr>clock = clock_of connection t (backoff_events 0 k @ [GetLatestBlockhash]),
                  events = backoff_events 0 k @ [GetLatestBlockhash]\<rparr>)"
    by (simp add: getRecentBlockhash_def start_world(4))
next
  assume a: "k = n \<and> 0 < n \<and> getLatestBlockhash connection (n - 1) = Inl e"
  have "blockhash_loop connection n 0 None (start t)
          = (Inl (as_Error e),
             \<lparr>clock = clock_of connection t (events (start t) @ backoff_events 0 n),
              events = events (start t) @ backoff_events 0 n\<rparr>)"
    using assms a by (intro blockhash_loop_exhausted start_world) simp_all
  then show "getRecentBlockhash connection (Some n) (start t)
              = (Inl (as_Error e),
                 \<lparr>clock = clock_of connection t (backoff_events 0 n),
                  events = backoff_events 0 n\<rparr>)"
    by (simp add: getRecentBlockhash_def start_world(4))
next
  assume "instanceof_Error e"
  then show "as_Error e = e" by (simp add: as_Error_def)
next
  show "blockhash_requests (events (snd (getRecentBlockhash connection (Some n) (start t)))) \<le> n"
    by (rule getRecentBlockhash_attempts)
next
  show "getRecentBlockhash connection None (start t)
          = getRecentBlockhash connection (Some 3) (start t)"
    by (simp add: getRecentBlockhash_def)
qed

lemma backoff_events_2:
  "backoff_events 0 2 = [GetLatestBlockhash, SetTimeout 1000, GetLatestBlockhash, SetTimeout 2000]"
  by (simp add: backoff_events_def numeral_2_eq_2)

theorem getRecentBlockhash_retries_witness:
  "throws (getLatestBlockhash flaky_connection 0)
   \<and> throws (getLatestBlockhash flaky_connection 1)
   \<and> getRecentBlockhash flaky_connection None (start 0)
       = (Inr \<lparr>blockhash = ''9xQe'', lastValidBlockHeight = 1000\<rparr>,
          \<lparr>clock = 3000,
           events = [GetLatestBlockhash, SetTimeout 1000, GetLatestBlockhash, SetTimeout 2000,
                     GetLatestBlockhash]\<rparr>)"
proof -
  have h: "\<forall>j<2. throws (getLatestBlockhash flaky_connection j)"
    by (simp add: flaky_connection_def sample_connection_def throws_def)
  have c: "clock_of flaky_connection 0
             [GetLatestBlockhash, SetTimeout 1000, GetLatestBlockhash, SetTimeout 2000,
              GetLatestBlockhash] = 3000"
    by (simp add: clock_of_def waited_def flaky_connection_def sample_connection_def)
  from getRecentBlockhash_retries[OF h, of 3 "\<lparr>blockhash = ''9xQe'', lastValidBlockHeight = 1000\<rparr>" 0]
  have "getRecentBlockhash flaky_connection None (start 0)
       = (Inr \<lparr>blockhash = ''9xQe'', lastValidBlockHeight = 1000\<rparr>,
          \<lparr>clock = clock_of flaky_connection 0 (backoff_events 0 2 @ [GetLatestBlockhash]),
           events = backoff_events 0 2 @ [GetLatestBlockhash]\<rparr>)"
    by (simp add: flaky_connection_def sample_connection_def)
  moreover have "throws (getLatestBlockhash flaky_connection 0)"
    and "throws (getLatestBlockhash flaky_connection 1)"
    by (simp_all add: flaky_connection_def sample_connection_def throws_def)
  ultimately show ?thesis by (simp add: c backoff_events_2)
qed

section \<open>Waiting for confirmation\<close>

lemma polling_events_Suc:
  "polling_events sig (Suc k) = polling_events sig k @ [GetSignatureStatus sig, SetTimeout 1000]"
  by (simp add: polling_events_def)

lemma polling_events_0: "polling_events sig 0 = []"
  by (simp add: polling_events_def)

lemma status_requests_polling: "status_requests (polling_events sig k) = k"
  by (induction k)
     (simp_all add: polling_events_Suc polling_events_0 status_requests_def is_status_request_def)

lemma poll_time_Suc:
  "poll_time connection t sig (Suc k)
     = poll_time connection t sig k + latency connection (2 * k) + 1000
       + latency connection (2 * k + 1)"
proof -
  have l: "length (polling_events sig k) = 2 * k"
    by (induction k) (simp_all add: polling_events_Suc polling_events_0)
  have "polling_events sig (Suc k)
          = (polling_events sig k @ [GetSignatureStatus sig]) @ [SetTimeout 1000]"
    by (simp add: polling_events_Suc)
  then show ?thesis
    unfolding poll_time_def by (simp only: clock_of_snoc) (simp add: l)
qed

lemma poll_time_0: "poll_time connection t sig 0 = t"
  by (simp add: poll_time_def polling_events_0 clock_of_def waited_def)

lemma poll_time_lower: "t + 1000 * k \<le> poll_time connection t sig k"
  by (induction k) (simp_all add: poll_time_0 poll_time_Suc)


text \<open>What one call of \<open>getTransactionStatus\<close> does to a world whose clock is consistent.\<close>

lemma getTransactionStatus_world:
  assumes "clock w = clock_of connection t (events w)"
  shows "snd (getTransactionStatus connection sig w)
           = \<lparr>clock = clock_of connection t (events w @ [GetSignatureStatus sig]),
              events = events w @ [GetSignatureStatus sig]\<rparr>"
proof -
  have "await connection (GetSignatureStatus sig) 0 w
          = \<lparr>clock = clock_of connection t (events w @ [GetSignatureStatus sig]),
             events = events w @ [GetSignatureStatus sig]\<rparr>"
    using assms by (intro await_request) simp_all
  then show ?thesis
    by (simp add: getTransactionStatus_def await_getSignatureStatus_def
        split: sum.splits option.splits)
qed

lemma getTransactionStatus_pending:
  assumes "pending (getSignatureStatus connection (status_requests (events w)))"
  shows "\<exists>status. fst (getTransactionStatus connection sig w) = Inr status
                  \<and> \<not> st_confirmed status"
  using assms
  by (auto simp: getTransactionStatus_def await_getSignatureStatus_def pending_def
      status_requests_def split: sum.splits option.splits)

lemma getTransactionStatus_confirmed:
  assumes "getSignatureStatus connection (status_requests (events w)) = Inr (Some v)"
    and "confirmationStatus v = Some Confirmed \<or> confirmationStatus v = Some Finalized"
  shows "fst (getTransactionStatus connection sig w)
           = Inr \<lparr>st_confirmed = True,
                  st_finalized = (confirmationStatus v = Some Finalized),
                  st_slot = Some (status_slot v), st_err = Some (status_err v)\<rparr>"
  using assms
  by (auto simp: getTransactionStatus_def await_getSignatureStatus_def status_requests_def)

lemma wait_loop_pending:
  assumes "events w = polling_events sig i"
    and "clock w = poll_time connection t sig i"
    and "\<forall>j. i \<le> j \<and> j < k \<longrightarrow> pending (getSignatureStatus connection j)"
    and "\<forall>j. i \<le> j \<and> j < k \<longrightarrow> poll_time connection t sig j - t < T"
    and "i \<le> k"
  shows "wait_loop connection sig T t w
           = wait_loop connection sig T t
               \<lparr>clock = poll_time connection t sig k, events = polling_events sig k\<rparr>"
  using assms
proof (induction "k - i" arbitrary: i w)
  case 0
  then have "i = k" by simp
  with "0.prems"(1,2) have "w = \<lparr>clock = poll_time connection t sig k, events = polling_events sig k\<rparr>"
    by simp
  then show ?case by simp
next
  case (Suc d)
  then have ik: "i < k" by simp
  have c: "clock w = clock_of connection t (events w)"
    using Suc.prems(1,2) by (simp add: poll_time_def)
  have sr: "status_requests (events w) = i"
    using Suc.prems(1) by (simp add: status_requests_polling)
  from Suc.prems(3) ik have "pending (getSignatureStatus connection i)" by simp
  with sr obtain status where
    st: "fst (getTransactionStatus connection sig w) = Inr status" "\<not> st_confirmed status"
    using getTransactionStatus_pending[of connection w sig] by auto
  define w1 where "w1 = snd (getTransactionStatus connection sig w)"
  have w1: "w1 = \<lparr>clock = clock_of connection t (events w @ [GetSignatureStatus sig]),
                   events = events w @ [GetSignatureStatus sig]\<rparr>"
    unfolding w1_def using c by (rule getTransactionStatus_world)
  then have c1: "clock w1 = clock_of connection t (events w1)" by simp
  define w2 where "w2 = sleep connection 1000 w1"
  have w2: "w2 = \<lparr>clock = clock_of connection t (events w1 @ [SetTimeout 1000]),
                   events = events w1 @ [SetTimeout 1000]\<rparr>"
    unfolding w2_def using c1 by (rule sleep_timer)
  have ev2: "events w2 = polling_events sig (Suc i)"
    by (simp add: w2 w1 Suc.prems(1) polling_events_Suc)
  have cl2: "clock w2 = poll_time connection t sig (Suc i)"
    using ev2 by (simp add: w2 poll_time_def)
  from Suc.prems(4) ik have "poll_time connection t sig i - t < T" by simp
  then have before: "clock w - t < T" by (simp add: Suc.prems(2))
  have gts: "getTransactionStatus connection sig w = (Inr status, w1)"
    using st(1) by (simp add: w1_def prod_eq_iff)
  have step: "wait_loop connection sig T t w = wait_loop connection sig T t w2"
    using before st(2)
    by (subst wait_loop.simps) (simp add: gts w2_def)
  have "wait_loop connection sig T t w2
          = wait_loop connection sig T t
              \<lparr>clock = poll_time connection t sig k, events = polling_events sig k\<rparr>"
  proof (rule Suc.hyps(1))
    show "d = k - Suc i" using Suc.hyps(2) by simp
    show "events w2 = polling_events sig (Suc i)" by (rule ev2)
    show "clock w2 = poll_time connection t sig (Suc i)" by (rule cl2)
    show "\<forall>j. Suc i \<le> j \<and> j < k \<longrightarrow> pending (getSignatureStatus connection j)"
      using Suc.prems(3) by simp
    show "\<forall>j. Suc i \<le> j \<and> j < k \<longrightarrow> poll_time connection t sig j - t < T"
      using Suc.prems(4) by simp
    show "Suc i \<le> k" using ik by simp
  qed
  with step show ?case by simp
qed

lemma wait_loop_timeout:
  assumes "T \<le> clock w - t"
  shows "wait_loop connection sig T t w = (Inr (timeout_result sig), w)"
  using assms by (subst wait_loop.simps) (simp add: timeout_result_def)

lemma wait_loop_confirmed:
  assumes "events w = polling_events sig k"
    and "clock w = poll_time connection t sig k"
    and "clock w - t < T"
    and "getSignatureStatus connection k = Inr (Some v)"
    and "confirmationStatus v = Some Confirmed \<or> confirmationStatus v = Some Finalized"
    and "getTransaction connection = Inr tx"
  shows "wait_loop connection sig T t w
           = (Inr \<lparr>signature = sig, confirmed = True, slot = Some (status_slot v),
                   blockTime = (case tx of
                                  None \<Rightarrow> None
                                | Some r \<Rightarrow> (case tx_blockTime r of
                                              None \<Rightarrow> None
                                            | Some b \<Rightarrow> if b = 0 then None else Some b)),
                   err = Some (status_err v)\<rparr>,
              \<lparr>clock = clock_of connection t
                         (polling_events sig k @ [GetSignatureStatus sig, GetTransaction sig]),
               events = polling_events sig k @ [GetSignatureStatus sig, GetTransaction sig]\<rparr>)"
proof -
  have c: "clock w = clock_of connection t (events w)"
    using assms(1,2) by (simp add: poll_time_def)
  have sr: "status_requests (events w) = k"
    using assms(1) by (simp add: status_requests_polling)
  define w1 where "w1 = snd (getTransactionStatus connection sig w)"
  have w1: "w1 = \<lparr>clock = clock_of connection t (events w @ [GetSignatureStatus sig]),
                   events = events w @ [GetSignatureStatus sig]\<rparr>"
    unfolding w1_def using c by (rule getTransactionStatus_world)
  then have c1: "clock w1 = clock_of connection t (events w1)" by simp
  have gts: "getTransactionStatus connection sig w
               = (Inr \<lparr>st_confirmed = True,
                       st_finalized = (confirmationStatus v = Some Finalized),
                       st_slot = Some (status_slot v), st_err = Some (status_err v)\<rparr>, w1)"
    using getTransactionStatus_confirmed[of connection w v sig] assms(4,5) sr
    by (simp add: w1_def prod_eq_iff)
  have "await connection (GetTransaction sig) 0 w1
          = \<lparr>clock = clock_of connection t (events w1 @ [GetTransaction sig]),
             events = events w1 @ [GetTransaction sig]\<rparr>"
    using c1 by (intro await_request) simp_all
  then have gt: "await_getTransaction connection sig w1
                   = (Inr tx,
                      \<lparr>clock = clock_of connection t (events w1 @ [GetTransaction sig]),
                       events = events w1 @ [GetTransaction sig]\<rparr>)"
    by (simp add: await_getTransaction_def assms(6))
  show ?thesis
    using assms(3)
    by (subst wait_loop.simps) (simp add: gts gt, simp add: w1 assms(1))
qed


lemma start_polling:
  "events (start t) = polling_events sig 0" "clock (start t) = poll_time connection t sig 0"
  by (simp_all add: start_def polling_events_0 poll_time_0)

lemma waitForConfirmation_timeout:
  assumes "\<forall>j<k. pending (getSignatureStatus connection j)"
    and "\<forall>j<k. poll_time connection t sig j - t < T"
    and "T \<le> poll_time connection t sig k - t"
  shows "waitForConfirmation connection sig (Some T) (start t)
           = (Inr (timeout_result sig),
              \<lparr>clock = poll_time connection t sig k, events = polling_events sig k\<rparr>)"
proof -
  have "wait_loop connection sig T t (start t)
          = wait_loop connection sig T t
              \<lparr>clock = poll_time connection t sig k, events = polling_events sig k\<rparr>"
    using assms(1,2) by (intro wait_loop_pending[where i = 0]) (simp_all add: start_polling)
  also have "\<dots> = (Inr (timeout_result sig),
                    \<lparr>clock = poll_time connection t sig k, events = polling_events sig k\<rparr>)"
    using assms(3) by (intro wait_loop_timeout) simp
  finally show ?thesis
    by (simp add: waitForConfirmation_def start_def)
qed

lemma polls_bound:
  assumes "\<forall>j<k. poll_time connection t sig j - t < T"
    and "T \<le> poll_time connection t sig k - t"
  shows "k \<le> (T + 999) div 1000" and "0 < T \<longrightarrow> 0 < k"
proof -
  show "k \<le> (T + 999) div 1000"
  proof (cases k)
    case 0
    then show ?thesis by simp
  next
    case (Suc m)
    with assms(1) have "poll_time connection t sig m - t < T" by simp
    moreover have "t + 1000 * m \<le> poll_time connection t sig m" by (rule poll_time_lower)
    ultimately have "1000 * m < T" by simp
    with Suc show ?thesis by simp
  qed
  show "0 < T \<longrightarrow> 0 < k"
    using assms(2) by (cases k) (simp_all add: poll_time_0)
qed

text \<open>
  A transaction that stays pending: the function returns the timeout result, after at
  most one poll for each started second of the timeout.
\<close>

lemma waitForConfirmation_never_confirmed:
  assumes "\<forall>j. pending (getSignatureStatus connection j)"
  shows "\<exists>k. waitForConfirmation connection sig (Some T) (start t)
               = (Inr (timeout_result sig),
                  \<lparr>clock = poll_time connection t sig k, events = polling_events sig k\<rparr>)
           \<and> k \<le> (T + 999) div 1000 \<and> (0 < T \<longrightarrow> 0 < k)"
proof -
  define k where "k = (LEAST k. T \<le> poll_time connection t sig k - t)"
  have "t + 1000 * T \<le> poll_time connection t sig T" by (rule poll_time_lower)
  then have "T \<le> poll_time connection t sig T - t" by simp
  then have k: "T \<le> poll_time connection t sig k - t"
    unfolding k_def by (rule LeastI)
  have before: "\<forall>j<k. poll_time connection t sig j - t < T"
  proof (intro allI impI)
    fix j
    assume "j < k"
    then have "\<not> T \<le> poll_time connection t sig j - t"
      unfolding k_def by (rule not_less_Least)
    then show "poll_time connection t sig j - t < T" by simp
  qed
  have "waitForConfirmation connection sig (Some T) (start t)
          = (Inr (timeout_result sig),
             \<lparr>clock = poll_time connection t sig k, events = polling_events sig k\<rparr>)"
    using assms before k by (intro waitForConfirmation_timeout) simp_all
  with polls_bound[OF before k] show ?thesis by blast
qed






text \<open>A confirmation at the second poll, with the block time of the transaction.\<close>

lemma waitForConfirmation_confirmed_sample:
  "waitForConfirmation confirming_connection ''5VfY'' None (start 0)
     = (Inr \<lparr>signature = ''5VfY'', confirmed = True, slot = Some 250,
             blockTime = Some 1700000000, err = Some None\<rparr>,
        \<lparr>clock = 1120,
         events = [GetSignatureStatus ''5VfY'', SetTimeout 1000, GetSignatureStatus ''5VfY'',
                   GetTransaction ''5VfY'']\<rparr>)"
proof -
  let ?v = "\<lparr>status_slot = 250, confirmations = Some 1, status_err = None,
             confirmationStatus = Some Confirmed\<rparr>"
  let ?tx = "Some \<lparr>tx_slot = 250, tx_blockTime = Some 1700000000\<rparr>"
  have p: "polling_events ''5VfY'' (Suc 0) = [GetSignatureStatus ''5VfY'', SetTimeout 1000]"
    by (simp add: polling_events_def)
  have t1: "poll_time confirming_connection 0 ''5VfY'' (Suc 0) = 1040"
    using poll_time_Suc[of confirming_connection 0 "''5VfY''" 0]
    by (simp add: poll_time_0 confirming_connection_def)
  have c: "clock_of confirming_connection 0
             [GetSignatureStatus ''5VfY'', SetTimeout 1000, GetSignatureStatus ''5VfY'',
              GetTransaction ''5VfY''] = 1120"
    by (simp add: clock_of_def waited_def confirming_connection_def upt_conv_Cons)
  have s1: "getSignatureStatus confirming_connection (Suc 0) = Inr (Some ?v)"
    and s2: "getTransaction confirming_connection = Inr ?tx"
    by (simp_all add: confirming_connection_def)
  have "wait_loop confirming_connection ''5VfY'' 60000 0 (start 0)
          = wait_loop confirming_connection ''5VfY'' 60000 0
              \<lparr>clock = poll_time confirming_connection 0 ''5VfY'' (Suc 0),
               events = polling_events ''5VfY'' (Suc 0)\<rparr>"
    by (intro wait_loop_pending[where i = 0])
       (simp_all add: start_def polling_events_0 poll_time_0 pending_def
          confirming_connection_def)
  also have "\<dots> = (Inr \<lparr>signature = ''5VfY'', confirmed = True, slot = Some (status_slot ?v),
                      blockTime = (case ?tx of
                                     None \<Rightarrow> None
                                   | Some r \<Rightarrow> (case tx_blockTime r of
                                                 None \<Rightarrow> None
                                               | Some b \<Rightarrow> if b = 0 then None else Some b)),
                      err = Some (status_err ?v)\<rparr>,
                 \<lparr>clock = clock_of confirming_connection 0
                            (polling_events ''5VfY'' (Suc 0)
                             @ [GetSignatureStatus ''5VfY'', GetTransaction ''5VfY'']),
                  events = polling_events ''5VfY'' (Suc 0)
                           @ [GetSignatureStatus ''5VfY'', GetTransaction ''5VfY'']\<rparr>)"
    by (rule wait_loop_confirmed) (simp_all add: t1 s1 s2)
  finally show ?thesis
    by (simp add: waitForConfirmation_def start_def p c)
qed


end
